theory Spec2Isabelle
  imports Complex_Main "HOL-Library.Word" "HOL-Library.AList"
begin

unbundle bit_operations_syntax

section \<open>Data model (src/core/types.ts, src/modes/types.ts, src/bracket/types.ts)\<close>

text \<open>
  JavaScript numbers that hold measurements and probabilities are modelled as \<open>real\<close>
  (IEEE rounding, NaN and the infinities are not modelled), counters as \<open>nat\<close>, seeds of
  teams as \<open>int\<close>, and the 32-bit state of the random number generator as \<open>32 word\<close>.
  An optional field \<open>f?: string\<close> is a \<open>string option\<close>; JavaScript's truthiness test on
  it (\<open>if (slot.team1Id)\<close>) is \<open>truthy\<close>: \<open>undefined\<close> and the empty string are falsy.
\<close>

datatype TournamentType = mens | womens

datatype Round =
  first_four | round_of_64 | round_of_32 | sweet_sixteen | elite_eight | final_four | championship

datatype Region = east | west | south | midwest

datatype SlotRegion = region Region | final_four_region

record TeamMetrics =
  adjOffensiveEfficiency :: real
  adjDefensiveEfficiency :: real
  adjTempo :: real
  strengthOfSchedule :: real
  nonConferenceSOS :: real
  effectiveFGPct :: real
  threePointRate :: real
  threePointPct :: real
  freeThrowRate :: real
  freeThrowPct :: real
  offensiveReboundPct :: real
  defensiveReboundPct :: real
  turnoverPct :: real
  stealPct :: real
  averageHeight :: real
  benchMinutesPct :: real
  experienceRating :: real
  wins :: real
  losses :: real
  conferenceWins :: real
  conferenceLosses :: real
  last10Wins :: real
  last10Losses :: real
  winStreak :: real

text \<open>Team: the optional mascot and coaching profiles are not read by the engine core.\<close>

record Team =
  id_t :: string
  name_t :: string
  shortName :: string
  seed :: int
  region_t :: Region
  conference :: string
  tournamentType_t :: TournamentType
  metrics :: TeamMetrics

datatype GameStatus = pre_game | in_progress | halftime | final

text \<open>LiveGameState: the fields the engine reads (the foul, shooting and timeout counters
  are carried along by the source but never read by it).\<close>

record LiveGameState =
  gameId :: string
  homeTeamId :: string
  awayTeamId :: string
  round_g :: Round
  homeScore :: real
  awayScore :: real
  period :: real
  timeRemainingSeconds :: real
  status :: GameStatus
  lastUpdated :: real

record BracketSlot =
  slotId :: string
  round_s :: Round
  region_s :: SlotRegion
  team1Id :: "string option"
  team2Id :: "string option"
  winnerId :: "string option"
  liveGame :: "LiveGameState option"
  nextSlotId :: "string option"

record SerializedBracket =
  tournamentType_b :: TournamentType
  year :: int
  slots :: "BracketSlot list"

definition truthy :: "string option \<Rightarrow> bool" where
  "truthy v = (case v of None \<Rightarrow> False | Some s \<Rightarrow> s \<noteq> [])"

section \<open>Constants (src/core/constants.ts)\<close>

definition ROUNDS_IN_ORDER :: "Round list" where
  "ROUNDS_IN_ORDER =
     [round_of_64, round_of_32, sweet_sixteen, elite_eight, final_four, championship]"

fun ROUND_INDEX :: "Round \<Rightarrow> int" where
  "ROUND_INDEX first_four = -1"
| "ROUND_INDEX round_of_64 = 0"
| "ROUND_INDEX round_of_32 = 1"
| "ROUND_INDEX sweet_sixteen = 2"
| "ROUND_INDEX elite_eight = 3"
| "ROUND_INDEX final_four = 4"
| "ROUND_INDEX championship = 5"

definition GAME_LENGTH_SECONDS :: real where
  "GAME_LENGTH_SECONDS = 40 * 60"

section \<open>Live-state blender (src/engine/live-state-blender.ts)\<close>

text \<open>
  The blender holds the base bracket (mutated in place by \<open>lockResult\<close>) and the set of
  locked slot ids. The snapshot \<open>Map<string, LiveGameState>\<close> is an association list in
  insertion order, the order \<open>liveGames.values()\<close> iterates in.
\<close>

record LiveStateBlender =
  baseBracket :: SerializedBracket
  teams_b :: "Team list"
  lockedSlots :: "string set"

record LiveAdjustedBracket =
  bracket_adj :: SerializedBracket
  activeGameSlots :: "string list"
  completedGameSlots :: "string list"

definition findLiveGameForSlot ::
  "BracketSlot \<Rightarrow> (string \<times> LiveGameState) list \<Rightarrow> LiveGameState option" where
  "findLiveGameForSlot slot liveGames =
     (case (team1Id slot, team2Id slot) of
        (Some t1, Some t2) \<Rightarrow>
          if t1 = [] \<or> t2 = [] then None
          else find (\<lambda>game. t1 \<in> {homeTeamId game, awayTeamId game}
                            \<and> t2 \<in> {homeTeamId game, awayTeamId game})
                 (map snd liveGames)
      | _ \<Rightarrow> None)"

datatype BlendMark = mark_none | mark_active | mark_completed

text \<open>The callback of \<open>slots.map\<close> in \<open>blend\<close>: the adjusted copy of one slot, and which
  of the two id lists the slot id is pushed to.\<close>

definition blend_slot ::
  "string set \<Rightarrow> (string \<times> LiveGameState) list \<Rightarrow> BracketSlot \<Rightarrow> BracketSlot \<times> BlendMark" where
  "blend_slot locked liveGames slot =
     (if slotId slot \<in> locked then (slot, mark_completed)
      else case findLiveGameForSlot slot liveGames of
        None \<Rightarrow> (slot, mark_none)
      | Some lg \<Rightarrow>
          if status lg = final then
            (let w = (if homeScore lg > awayScore lg then homeTeamId lg else awayTeamId lg)
             in (slot\<lparr>winnerId := Some w, liveGame := Some lg\<rparr>, mark_completed))
          else if status lg = in_progress \<or> status lg = halftime then
            (slot\<lparr>liveGame := Some lg\<rparr>, mark_active)
          else (slot\<lparr>liveGame := Some lg\<rparr>, mark_none))"

definition blend :: "LiveStateBlender \<Rightarrow> (string \<times> LiveGameState) list \<Rightarrow> LiveAdjustedBracket" where
  "blend b liveGames =
     (let rs = map (blend_slot (lockedSlots b) liveGames) (slots (baseBracket b))
      in \<lparr> bracket_adj = (baseBracket b)\<lparr>slots := map fst rs\<rparr>,
           activeGameSlots = map (slotId \<circ> fst) (filter (\<lambda>r. snd r = mark_active) rs),
           completedGameSlots = map (slotId \<circ> fst) (filter (\<lambda>r. snd r = mark_completed) rs) \<rparr>)"

text \<open>\<open>Array.prototype.find\<close> returns the first match; the index stands for the object.\<close>

fun firstIndex :: "('a \<Rightarrow> bool) \<Rightarrow> 'a list \<Rightarrow> nat option" where
  "firstIndex P [] = None"
| "firstIndex P (x # xs) = (if P x then Some 0 else map_option Suc (firstIndex P xs))"

text \<open>Writing a winner into the next slot: the first free place is \<open>team1Id\<close>, otherwise
  \<open>team2Id\<close> is (over)written. The same four lines stand in \<open>lockResult\<close> and in
  \<open>BracketSimState.setWinner\<close>.\<close>

definition advanceInto :: "BracketSlot \<Rightarrow> string \<Rightarrow> BracketSlot" where
  "advanceInto nextSlot w =
     (if \<not> truthy (team1Id nextSlot) then nextSlot\<lparr>team1Id := Some w\<rparr>
      else nextSlot\<lparr>team2Id := Some w\<rparr>)"

definition lockResult :: "LiveStateBlender \<Rightarrow> string \<Rightarrow> string \<Rightarrow> LiveStateBlender" where
  "lockResult b sid w =
     (let b1 = b\<lparr>lockedSlots := insert sid (lockedSlots b)\<rparr>;
          ss = slots (baseBracket b1)
      in case firstIndex (\<lambda>s. slotId s = sid) ss of
           None \<Rightarrow> b1
         | Some i \<Rightarrow>
             (let ss1 = ss[i := (ss ! i)\<lparr>winnerId := Some w, liveGame := None\<rparr>];
                  ss2 = (case nextSlotId (ss1 ! i) of
                           None \<Rightarrow> ss1
                         | Some n \<Rightarrow>
                             if n = [] then ss1
                             else (case firstIndex (\<lambda>s. slotId s = n) ss1 of
                                     None \<Rightarrow> ss1
                                   | Some j \<Rightarrow> ss1[j := advanceInto (ss1 ! j) w]))
              in b1\<lparr>baseBracket := (baseBracket b1)\<lparr>slots := ss2\<rparr>\<rparr>))"

section \<open>Per-run bracket state (src/bracket/bracket-state.ts)\<close>

text \<open>
  \<open>BracketSimState\<close> copies every slot of the bracket and keeps the copies in two views:
  a \<open>Map\<close> from slot id to copy (a later slot with the same id replaces an earlier one)
  and, per round, the array of copies in bracket order. Both views share the copies, so
  the state is the list of copies; an index stands for the object, the \<open>Map\<close> is
  \<open>slots_get\<close> (the last index holding the id), and the per-round arrays are the indices
  of a round in ascending order.
\<close>

datatype error = UnknownSlot string | TooFewComponents

type_synonym BracketSimState = "BracketSlot list"

definition BracketSimState_new :: "SerializedBracket \<Rightarrow> BracketSimState" where
  "BracketSimState_new bracket = slots bracket"

fun lastIndex :: "('a \<Rightarrow> bool) \<Rightarrow> 'a list \<Rightarrow> nat option" where
  "lastIndex P [] = None"
| "lastIndex P (x # xs) =
     (case lastIndex P xs of
        Some k \<Rightarrow> Some (Suc k)
      | None \<Rightarrow> if P x then Some 0 else None)"

definition slots_get :: "BracketSimState \<Rightarrow> string \<Rightarrow> nat option" where
  "slots_get st sid = lastIndex (\<lambda>s. slotId s = sid) st"

definition setWinner :: "BracketSimState \<Rightarrow> string \<Rightarrow> string \<Rightarrow> error + BracketSimState" where
  "setWinner st sid w =
     (case slots_get st sid of
        None \<Rightarrow> Inl (UnknownSlot sid)
      | Some i \<Rightarrow>
          (let st1 = st[i := (st ! i)\<lparr>winnerId := Some w\<rparr>]
           in case nextSlotId (st1 ! i) of
                None \<Rightarrow> Inr st1
              | Some n \<Rightarrow>
                  if n = [] then Inr st1
                  else (case slots_get st1 n of
                          None \<Rightarrow> Inr st1
                        | Some j \<Rightarrow> Inr (st1[j := advanceInto (st1 ! j) w]))))"

definition isReady :: "BracketSlot \<Rightarrow> bool" where
  "isReady s = (truthy (team1Id s) \<and> truthy (team2Id s) \<and> \<not> truthy (winnerId s))"

definition getReadyGamesForRound :: "BracketSimState \<Rightarrow> Round \<Rightarrow> nat list" where
  "getReadyGamesForRound st r =
     filter (\<lambda>i. round_s (st ! i) = r \<and> isReady (st ! i)) [0..<length st]"

definition getChampion :: "BracketSimState \<Rightarrow> string option" where
  "getChampion st =
     (case slots_get st ''championship'' of None \<Rightarrow> None | Some i \<Rightarrow> winnerId (st ! i))"

section \<open>Modes (src/modes/types.ts, src/modes/base-mode.ts, src/modes/mode-blender.ts)\<close>

datatype ModeCategory = research | entertainment | hybrid

datatype ConfidenceTag = statistically_validated | experimental | whimsical

datatype RequiredDataSource =
  mascot_data | coaching_ratings | nba_draft_rankings | betting_lines | historical_results | ai_model

record VarianceConfig =
  baseVariance :: real
  upsetMultiplier :: real
  liveStateWeight :: real
  roundVarianceMultipliers :: "Round \<rightharpoonup> real"
  seedGapSensitivity :: real

record SimulationContext =
  round_c :: Round
  region_c :: SlotRegion
  tournamentType_c :: TournamentType
  gamesPlayedByTeam1 :: nat
  gamesPlayedByTeam2 :: nat

text \<open>
  A mode is an object with methods. Its methods are modelled as pure functions of their
  arguments (\<open>getMetricWeights()\<close> and \<open>getVarianceConfig()\<close> as the values they return,
  the weights as the entries of the returned object in \<open>Object.entries\<close> order). The two
  optional members are options; \<open>initializeSimState\<close> is the state a call of it returns,
  and \<open>onGameComplete\<close>, which mutates the state object it is given, returns the new
  contents of that object. \<open>'st\<close> is the type of the opaque mode state.
\<close>

record 'st SimulationMode =
  id_m :: string
  name_m :: string
  description_m :: string
  category :: ModeCategory
  confidenceTag :: ConfidenceTag
  getMetricWeights :: "(string \<times> real) list"
  getVarianceConfig :: VarianceConfig
  adjustProbability :: "real \<Rightarrow> Team \<Rightarrow> Team \<Rightarrow> SimulationContext \<Rightarrow> real"
  getRequiredData :: "RequiredDataSource list"
  onGameComplete :: "(Team \<Rightarrow> Team \<Rightarrow> Round \<Rightarrow> 'st \<Rightarrow> 'st) option"
  initializeSimState :: "'st option"

definition DEFAULT_WEIGHTS :: "(string \<times> real) list" where
  "DEFAULT_WEIGHTS =
     [(''adjOffensiveEfficiency'', 1.0), (''adjDefensiveEfficiency'', 1.0), (''adjTempo'', 0.3),
      (''strengthOfSchedule'', 0.5), (''effectiveFGPct'', 0.6), (''threePointRate'', 0.3),
      (''threePointPct'', 0.5), (''freeThrowRate'', 0.2), (''freeThrowPct'', 0.3),
      (''offensiveReboundPct'', 0.4), (''defensiveReboundPct'', 0.4), (''turnoverPct'', 0.5),
      (''experienceRating'', 0.3), (''momentumScore'', 0.2)]"

definition DEFAULT_VARIANCE :: VarianceConfig where
  "DEFAULT_VARIANCE =
     \<lparr> baseVariance = 0.11, upsetMultiplier = 1.0, liveStateWeight = 1.0,
       roundVarianceMultipliers = Map.empty, seedGapSensitivity = 1.0 \<rparr>"

text \<open>The mode of src/modes/implementations/pure-statistical.ts; \<open>adjustProbability\<close> and
  \<open>getRequiredData\<close> are inherited from \<open>BaseSimulationMode\<close>, which has neither optional
  member.\<close>

definition PureStatisticalMode :: "'st SimulationMode" where
  "PureStatisticalMode =
     \<lparr> id_m = ''pure-statistical'', name_m = ''Serious Analytics'', description_m = ''Research-grade model'',
       category = research, confidenceTag = statistically_validated,
       getMetricWeights = DEFAULT_WEIGHTS, getVarianceConfig = DEFAULT_VARIANCE,
       adjustProbability = (\<lambda>baseProbability team1 team2 context. baseProbability),
       getRequiredData = [], onGameComplete = None, initializeSimState = None \<rparr>"

record 'st BlendComponent =
  mode :: "'st SimulationMode"
  weight :: real

record BlenderConfig =
  id_cfg :: string
  name_cfg :: string
  description_cfg :: string

record 'st ModeBlender =
  id_mb :: string
  name_mb :: string
  description_mb :: string
  category_mb :: ModeCategory
  confidenceTag_mb :: ConfidenceTag
  components :: "'st BlendComponent list"
  totalWeight :: real

text \<open>The constructor of \<open>ModeBlender\<close>; it throws for fewer than two components.\<close>

definition ModeBlender_new ::
  "'st BlendComponent list \<Rightarrow> BlenderConfig \<Rightarrow> error + 'st ModeBlender" where
  "ModeBlender_new comps config =
     (if length comps < 2 then Inl TooFewComponents
      else
        (let hasWhimsical = list_ex (\<lambda>c. confidenceTag (mode c) = whimsical) comps;
             allResearch = list_all (\<lambda>c. category (mode c) = research) comps
         in Inr \<lparr> id_mb = id_cfg config, name_mb = name_cfg config,
                  description_mb = description_cfg config,
                  category_mb = (if hasWhimsical then entertainment
                                 else if allResearch then research else hybrid),
                  confidenceTag_mb = (if hasWhimsical then experimental else experimental),
                  components = comps,
                  totalWeight = fold (\<lambda>c sum. sum + weight c) comps 0 \<rparr>))"

section \<open>Probability model (src/engine/probability-model.ts)\<close>

definition computeMomentumScore :: "TeamMetrics \<Rightarrow> real" where
  "computeMomentumScore m =
     (let games = last10Wins m + last10Losses m;
          last10WinPct = last10Wins m / (if games = 0 then 1 else games);
          streakBonus = min (winStreak m * 0.03) 0.15
      in (last10WinPct - 0.5) * 2 + streakBonus)"

definition getMetricValue :: "Team \<Rightarrow> string \<Rightarrow> real" where
  "getMetricValue team key =
     (let m = metrics team in
      if key = ''adjOffensiveEfficiency'' then adjOffensiveEfficiency m
      else if key = ''adjDefensiveEfficiency'' then adjDefensiveEfficiency m
      else if key = ''adjTempo'' then adjTempo m
      else if key = ''strengthOfSchedule'' then strengthOfSchedule m
      else if key = ''effectiveFGPct'' then effectiveFGPct m
      else if key = ''threePointRate'' then threePointRate m
      else if key = ''threePointPct'' then threePointPct m
      else if key = ''freeThrowRate'' then freeThrowRate m
      else if key = ''freeThrowPct'' then freeThrowPct m
      else if key = ''offensiveReboundPct'' then offensiveReboundPct m
      else if key = ''defensiveReboundPct'' then defensiveReboundPct m
      else if key = ''turnoverPct'' then turnoverPct m
      else if key = ''experienceRating'' then experienceRating m
      else if key = ''momentumScore'' then computeMomentumScore m
      else 0)"

definition LOWER_IS_BETTER :: "string set" where
  "LOWER_IS_BETTER = {''adjDefensiveEfficiency'', ''turnoverPct''}"

definition NORMALIZATION :: "(string \<times> real) list" where
  "NORMALIZATION =
     [(''adjOffensiveEfficiency'', 8.0), (''adjDefensiveEfficiency'', 8.0), (''adjTempo'', 4.0),
      (''strengthOfSchedule'', 4.0), (''effectiveFGPct'', 0.035), (''threePointRate'', 0.06),
      (''threePointPct'', 0.035), (''freeThrowRate'', 0.08), (''freeThrowPct'', 0.06),
      (''offensiveReboundPct'', 0.04), (''defensiveReboundPct'', 0.04), (''turnoverPct'', 0.03),
      (''experienceRating'', 0.6), (''momentumScore'', 0.5)]"

definition sigmoid :: "real \<Rightarrow> real" where
  "sigmoid x = 1 / (1 + exp (- x))"

text \<open>The body of the loop over \<open>Object.entries(weights)\<close>.\<close>

definition logitStep :: "Team \<Rightarrow> Team \<Rightarrow> string \<times> real \<Rightarrow> real \<Rightarrow> real" where
  "logitStep team1 team2 kw logit =
     (let key = fst kw; w = snd kw in
      if w = 0 then logit
      else
        (let v1 = getMetricValue team1 key;
             v2 = getMetricValue team2 key;
             norm = (case map_of NORMALIZATION key of None \<Rightarrow> 1 | Some n \<Rightarrow> n);
             diff = (v1 - v2) / norm;
             diff' = (if key \<in> LOWER_IS_BETTER then - diff else diff)
         in logit + w * diff'))"

definition computeBaseWinProbability :: "Team \<Rightarrow> Team \<Rightarrow> (string \<times> real) list \<Rightarrow> real" where
  "computeBaseWinProbability team1 team2 weights =
     (let logit = fold (logitStep team1 team2) weights 0;
          scaleFactor = 0.25
      in sigmoid (logit * scaleFactor))"

definition applySeedGapAdjustment :: "real \<Rightarrow> int \<Rightarrow> int \<Rightarrow> real \<Rightarrow> real" where
  "applySeedGapAdjustment baseProbability team1Seed team2Seed sens =
     (if sens = 0 \<or> team1Seed = team2Seed then baseProbability
      else
        (let seedDiff = team2Seed - team1Seed;
             seedImpliedProb = sigmoid (real_of_int seedDiff * 0.18);
             pullStrength = 0.15 * sens
         in baseProbability * (1 - pullStrength) + seedImpliedProb * pullStrength))"

definition normalCDF :: "real \<Rightarrow> real" where
  "normalCDF x0 =
     (let a1 = 0.254829592; a2 = - 0.284496736; a3 = 1.421413741; a4 = - 1.453152027;
          a5 = 1.061405429; p = 0.3275911;
          sign = (if x0 < 0 then - 1 else 1);
          x = \<bar>x0\<bar> / sqrt 2;
          t = 1.0 / (1.0 + p * x);
          y = 1.0 - (((((a5 * t + a4) * t) + a3) * t + a2) * t + a1) * t * exp (- x * x)
      in 0.5 * (1.0 + sign * y))"

text \<open>\<open>Math.pow(x, 0)\<close> is 1 for every \<open>x\<close>, also for \<open>x = 0\<close>, where \<open>powr\<close> gives 0. For
  \<open>0 \<le> x\<close> and a positive exponent \<open>Math.pow\<close> is \<open>powr\<close>; \<open>LIVE_STATE_GAMMA\<close> is not
  meant to be negative.\<close>

definition computeLiveAdjustedProbability :: "real \<Rightarrow> LiveGameState \<Rightarrow> bool \<Rightarrow> real \<Rightarrow> real" where
  "computeLiveAdjustedProbability pregameProbability liveState homeTeamIsTeam1 gamma =
     (let team1Score = (if homeTeamIsTeam1 then homeScore liveState else awayScore liveState);
          team2Score = (if homeTeamIsTeam1 then awayScore liveState else homeScore liveState)
      in
      if status liveState = pre_game then pregameProbability
      else if status liveState = final then
        (if team1Score > team2Score then 1.0 else if team1Score < team2Score then 0.0 else 0.5)
      else
        (let totalTime = (if period liveState \<le> 2 then GAME_LENGTH_SECONDS
                          else GAME_LENGTH_SECONDS + (period liveState - 2) * 300);
             elapsed = totalTime - timeRemainingSeconds liveState;
             elapsedFraction = max 0 (min 1 (elapsed / totalTime));
             alpha = (if gamma = 0 then 1 else elapsedFraction powr gamma);
             scoreDiff = team1Score - team2Score;
             remainingPossessions =
               max 1 ((timeRemainingSeconds liveState / GAME_LENGTH_SECONDS) * 70);
             expectedStdDev = sqrt remainingPossessions * 2.5;
             liveProb = normalCDF (scoreDiff / expectedStdDev)
         in alpha * liveProb + (1 - alpha) * pregameProbability))"

section \<open>Random number generator (createRng in src/engine/bracket-propagator.ts)\<close>

text \<open>
  A seed is an integer-valued JavaScript number. \<open>toDouble\<close> rounds an integer to the
  nearest double (53 significant bits, ties to even), as \<open>seed * 1664525\<close> and the
  additions do beyond \<open>2^53\<close>; \<open>ToInt32\<close> is \<open>x | 0\<close> (an infinite value gives 0). From
  \<open>s1\<close> on all values are 32-bit integers and the arithmetic of the source is exact, so it
  is the arithmetic of \<open>32 word\<close>.
\<close>

fun bitlen :: "nat \<Rightarrow> nat" where
  "bitlen n = (if n = 0 then 0 else Suc (bitlen (n div 2)))"

definition toDouble :: "int \<Rightarrow> int" where
  "toDouble x =
     (let a = nat \<bar>x\<bar> in
      if a < 2 ^ 53 then x
      else
        (let e = bitlen a - 53;
             q = a div 2 ^ e;
             r = a mod 2 ^ e;
             h = 2 ^ (e - 1);
             q' = (if r > h \<or> (r = h \<and> odd q) then q + 1 else q)
         in sgn x * int (q' * 2 ^ e)))"

definition ToInt32 :: "int \<Rightarrow> 32 word" where
  "ToInt32 x = (if \<bar>x\<bar> \<ge> 2 ^ 1024 then 0 else word_of_int x)"

type_synonym rng_state = "32 word \<times> 32 word \<times> 32 word \<times> 32 word"

definition createRng :: "int \<Rightarrow> rng_state" where
  "createRng seed0 =
     (let s0 = ToInt32 seed0;
          s1 = ToInt32 (toDouble (toDouble (seed0 * 1664525) + 1013904223));
          s2 = s1 * 1664525 + 1013904223;
          s3 = s2 * 1664525 + 1013904223
      in (s0, s1, s2, s3))"

text \<open>One call of the closure returned by \<open>createRng\<close>: the number returned and the new
  state.\<close>

definition rng_next :: "rng_state \<Rightarrow> real \<times> rng_state" where
  "rng_next st =
     (case st of (s0, s1, s2, s3) \<Rightarrow>
        (let t = push_bit 9 s1;
             r = s1 * 5;
             r = push_bit 7 r OR drop_bit 25 r;
             r = r * 9;
             s2 = s2 XOR s0;
             s3 = s3 XOR s1;
             s1 = s1 XOR s2;
             s0 = s0 XOR s3;
             s2 = s2 XOR t;
             s3 = push_bit 11 s3 OR drop_bit 21 s3
         in (real (unat r) / 4294967296, (s0, s1, s2, s3))))"

text \<open>\<open>while (u === 0) u = rng();\<close> of \<open>gaussianRandom\<close>: the loop draws until a draw is
  not zero.\<close>

partial_function (option) drawNonZero :: "rng_state \<Rightarrow> (real \<times> rng_state) option" where
  "drawNonZero st =
     (case rng_next st of (u, st') \<Rightarrow> if u = 0 then drawNonZero st' else Some (u, st'))"

definition gaussianRandom :: "rng_state \<Rightarrow> (real \<times> rng_state) option" where
  "gaussianRandom st =
     (case drawNonZero st of
        None \<Rightarrow> None
      | Some (u, st1) \<Rightarrow>
          (case drawNonZero st1 of
             None \<Rightarrow> None
           | Some (v, st2) \<Rightarrow> Some (sqrt (- 2.0 * ln u) * cos (2.0 * pi * v), st2)))"

definition sampleOutcome ::
  "real \<Rightarrow> VarianceConfig \<Rightarrow> Round \<Rightarrow> rng_state \<Rightarrow> (bool \<times> rng_state) option" where
  "sampleOutcome team1WinProb varianceConfig r st =
     (let roundMult = (case roundVarianceMultipliers varianceConfig r of
                         None \<Rightarrow> 1.0 | Some m \<Rightarrow> m);
          variance = baseVariance varianceConfig * roundMult;
          logitP = ln (team1WinProb / (1 - team1WinProb + 0.0000000001) + 0.0000000001)
      in case gaussianRandom st of
           None \<Rightarrow> None
         | Some (g, st1) \<Rightarrow>
             (let noise = g * variance * 4;
                  noisyProb = sigmoid (logitP + noise);
                  finalProb = noisyProb * (1 / upsetMultiplier varianceConfig)
                              + 0.5 * (1 - 1 / upsetMultiplier varianceConfig)
              in case rng_next st1 of
                   (x, st2) \<Rightarrow> Some (x < max 0.001 (min 0.999 finalProb), st2)))"

section \<open>Bracket propagator (simulateFullBracket in src/engine/bracket-propagator.ts)\<close>

text \<open>
  What the source reads from outside its arguments: the clock (\<open>Date.now()\<close>, read once
  per run and only when no base seed is given; \<open>now i\<close> is the reading in run \<open>i\<close>) and
  the configured \<open>CONFIG.LIVE_STATE_GAMMA\<close>.
\<close>

record Env =
  now :: "nat \<Rightarrow> int"
  LIVE_STATE_GAMMA :: real

text \<open>
  \<open>roundCounts\<close> is a function from team id and round to the count. The source creates the
  entries of the roster's ids for the rounds of \<open>ROUNDS_IN_ORDER\<close> with 0 and only ever
  increments entries of roster teams in these rounds; every reader of a missing entry
  (\<open>counts?.[round] ?? 0\<close>) reads 0. \<open>championshipCounts\<close> is an association list in the
  order of \<open>Object.entries\<close> (insertion order, for ids that are not array indices).
\<close>

record BracketSimResult =
  roundCounts :: "string \<Rightarrow> Round \<Rightarrow> nat"
  championshipCounts :: "(string \<times> nat) list"
  totalSims :: nat

text \<open>The variables of one Monte Carlo run (\<open>state\<close>, \<open>rng\<close>, \<open>gamesPlayed\<close>) and the two
  that outlive it (\<open>modeState\<close>, \<open>roundCounts\<close>).\<close>

record 'st RunState =
  rs_slots :: BracketSimState
  rs_rng :: rng_state
  rs_gamesPlayed :: "string \<rightharpoonup> nat"
  rs_modeState :: "'st option"
  rs_roundCounts :: "string \<Rightarrow> Round \<Rightarrow> nat"

text \<open>What is carried from one run to the next.\<close>

record 'st SimAcc =
  acc_roundCounts :: "string \<Rightarrow> Round \<Rightarrow> nat"
  acc_championshipCounts :: "(string \<times> nat) list"
  acc_modeState :: "'st option"

text \<open>A computation that may not return (\<open>None\<close>), throw (\<open>Inl\<close>) or return (\<open>Inr\<close>).\<close>

definition andThen ::
  "(error + 'a) option \<Rightarrow> ('a \<Rightarrow> (error + 'b) option) \<Rightarrow> (error + 'b) option" where
  "andThen m f = (case m of None \<Rightarrow> None | Some (Inl e) \<Rightarrow> Some (Inl e) | Some (Inr x) \<Rightarrow> f x)"

text \<open>\<open>teamMap\<close>: filled by \<open>set\<close> in roster order, so the last team with an id is kept.\<close>

definition teamMap_get :: "Team list \<Rightarrow> string \<Rightarrow> Team option" where
  "teamMap_get teams tid = map_of (rev (map (\<lambda>t. (id_t t, t)) teams)) tid"

definition incCount :: "(string \<Rightarrow> Round \<Rightarrow> nat) \<Rightarrow> string \<Rightarrow> Round \<Rightarrow> (string \<Rightarrow> Round \<Rightarrow> nat)" where
  "incCount rc tid r = rc(tid := (rc tid)(r := Suc (rc tid r)))"

definition bumpGames :: "(string \<rightharpoonup> nat) \<Rightarrow> string \<Rightarrow> (string \<rightharpoonup> nat)" where
  "bumpGames gp tid = gp(tid \<mapsto> (case gp tid of None \<Rightarrow> 0 | Some n \<Rightarrow> n) + 1)"

text \<open>The probability pipeline of one game, up to the clamp.\<close>

definition gameProbability ::
  "Env \<Rightarrow> 'st SimulationMode \<Rightarrow> BracketSlot \<Rightarrow> Team \<Rightarrow> Team \<Rightarrow> SimulationContext \<Rightarrow> real" where
  "gameProbability env md game team1 team2 context =
     (let weights = getMetricWeights md;
          variance = getVarianceConfig md;
          prob = computeBaseWinProbability team1 team2 weights;
          prob = applySeedGapAdjustment prob (seed team1) (seed team2) (seedGapSensitivity variance);
          prob = adjustProbability md prob team1 team2 context;
          prob = (case liveGame game of
                    None \<Rightarrow> prob
                  | Some lg \<Rightarrow>
                      if status lg \<noteq> pre_game then
                        computeLiveAdjustedProbability prob lg (homeTeamId lg = id_t team1)
                          (LIVE_STATE_GAMMA env)
                      else prob)
      in max 0.001 (min 0.999 prob))"

text \<open>
  The body of \<open>for (const game of games)\<close>. \<open>game\<close> is an object of the run's state (index
  \<open>i\<close>), read when the iteration starts. \<open>teamMap.get(winnerId)\<close> is the team whose id was
  taken, so \<open>winner\<close> and \<open>loser\<close> are \<open>team1\<close> and \<open>team2\<close> in the order of the outcome.
\<close>

definition playGame ::
  "Env \<Rightarrow> Team list \<Rightarrow> TournamentType \<Rightarrow> 'st SimulationMode \<Rightarrow> Round \<Rightarrow> nat \<Rightarrow> 'st RunState
     \<Rightarrow> (error + 'st RunState) option" where
  "playGame env teams tt md r i rs =
     (let game = rs_slots rs ! i in
      if \<not> truthy (team1Id game) \<or> \<not> truthy (team2Id game) then Some (Inr rs)
      else
        case (teamMap_get teams (case team1Id game of None \<Rightarrow> [] | Some a \<Rightarrow> a),
              teamMap_get teams (case team2Id game of None \<Rightarrow> [] | Some b \<Rightarrow> b)) of
          (Some team1, Some team2) \<Rightarrow>
            (let rc = incCount (incCount (rs_roundCounts rs) (id_t team1) r) (id_t team2) r;
                 context = \<lparr> round_c = r, region_c = region_s game, tournamentType_c = tt,
                   gamesPlayedByTeam1 = (case rs_gamesPlayed rs (id_t team1) of None \<Rightarrow> 0 | Some n \<Rightarrow> n),
                   gamesPlayedByTeam2 = (case rs_gamesPlayed rs (id_t team2) of None \<Rightarrow> 0 | Some n \<Rightarrow> n) \<rparr>;
                 prob = gameProbability env md game team1 team2 context
             in case sampleOutcome prob (getVarianceConfig md) r (rs_rng rs) of
                  None \<Rightarrow> None
                | Some (team1Wins, g) \<Rightarrow>
                    (let winner = (if team1Wins then team1 else team2);
                         loser = (if team1Wins then team2 else team1)
                     in case setWinner (rs_slots rs) (slotId game) (id_t winner) of
                          Inl e \<Rightarrow> Some (Inl e)
                        | Inr st \<Rightarrow>
                            Some (Inr \<lparr> rs_slots = st, rs_rng = g,
                              rs_gamesPlayed =
                                bumpGames (bumpGames (rs_gamesPlayed rs) (id_t winner)) (id_t loser),
                              rs_modeState =
                                (case (onGameComplete md, rs_modeState rs) of
                                   (Some f, Some s) \<Rightarrow> Some (f winner loser r s)
                                 | _ \<Rightarrow> rs_modeState rs),
                              rs_roundCounts = rc \<rparr>)))
        | _ \<Rightarrow> Some (Inr rs))"

fun playGames ::
  "Env \<Rightarrow> Team list \<Rightarrow> TournamentType \<Rightarrow> 'st SimulationMode \<Rightarrow> Round \<Rightarrow> nat list \<Rightarrow> 'st RunState
     \<Rightarrow> (error + 'st RunState) option" where
  "playGames env teams tt md r [] rs = Some (Inr rs)"
| "playGames env teams tt md r (i # games) rs =
     andThen (playGame env teams tt md r i rs) (playGames env teams tt md r games)"

text \<open>\<open>for (const round of ROUNDS_IN_ORDER)\<close>: the ready games of a round are taken when
  the round starts.\<close>

fun playRounds ::
  "Env \<Rightarrow> Team list \<Rightarrow> TournamentType \<Rightarrow> 'st SimulationMode \<Rightarrow> Round list \<Rightarrow> 'st RunState
     \<Rightarrow> (error + 'st RunState) option" where
  "playRounds env teams tt md [] rs = Some (Inr rs)"
| "playRounds env teams tt md (r # rounds) rs =
     andThen (playGames env teams tt md r (getReadyGamesForRound (rs_slots rs) r) rs)
       (playRounds env teams tt md rounds)"

definition recordChampion :: "BracketSimState \<Rightarrow> (string \<times> nat) list \<Rightarrow> (string \<times> nat) list" where
  "recordChampion st cc =
     (case getChampion st of
        None \<Rightarrow> cc
      | Some champion \<Rightarrow>
          if champion = [] then cc
          else AList.update champion ((case map_of cc champion of None \<Rightarrow> 0 | Some n \<Rightarrow> n) + 1) cc)"

text \<open>One iteration of \<open>for (let sim = 0; sim < simulationCount; sim++)\<close>, given the seed
  of its generator.\<close>

definition oneSim ::
  "Env \<Rightarrow> SerializedBracket \<Rightarrow> Team list \<Rightarrow> 'st SimulationMode \<Rightarrow> int \<Rightarrow> 'st SimAcc
     \<Rightarrow> (error + 'st SimAcc) option" where
  "oneSim env bracket teams md rngSeed acc =
     andThen
       (playRounds env teams (tournamentType_b bracket) md ROUNDS_IN_ORDER
          \<lparr> rs_slots = BracketSimState_new bracket, rs_rng = createRng rngSeed,
            rs_gamesPlayed = Map.empty, rs_modeState = acc_modeState acc,
            rs_roundCounts = acc_roundCounts acc \<rparr>)
       (\<lambda>rs. Some (Inr \<lparr> acc_roundCounts = rs_roundCounts rs,
                          acc_championshipCounts =
                            recordChampion (rs_slots rs) (acc_championshipCounts acc),
                          acc_modeState = rs_modeState rs \<rparr>))"

definition runSeed :: "Env \<Rightarrow> int option \<Rightarrow> nat \<Rightarrow> int" where
  "runSeed env baseSeed sim =
     (case baseSeed of
        Some s \<Rightarrow> toDouble (s + int sim)
      | None \<Rightarrow> toDouble (now env sim + int sim))"

text \<open>The loop over the runs: \<open>n\<close> runs are left, the next one has index \<open>sim\<close>.\<close>

fun simLoop ::
  "Env \<Rightarrow> SerializedBracket \<Rightarrow> Team list \<Rightarrow> 'st SimulationMode \<Rightarrow> int option \<Rightarrow> nat \<Rightarrow> nat
     \<Rightarrow> 'st SimAcc \<Rightarrow> (error + 'st SimAcc) option" where
  "simLoop env bracket teams md baseSeed 0 sim acc = Some (Inr acc)"
| "simLoop env bracket teams md baseSeed (Suc n) sim acc =
     andThen (oneSim env bracket teams md (runSeed env baseSeed sim) acc)
       (simLoop env bracket teams md baseSeed n (Suc sim))"

text \<open>The two tables before the first run. \<open>championshipCounts\<close> is kept as the list of
  its entries in the order in which the keys were created, which is the order of
  \<open>Object.entries\<close> as long as no team id is the decimal form of an array index (such keys
  would be listed first, in ascending order).\<close>

definition initialAcc :: "Team list \<Rightarrow> 'st SimulationMode \<Rightarrow> 'st SimAcc" where
  "initialAcc teams md =
     \<lparr> acc_roundCounts = (\<lambda>tid r. 0),
       acc_championshipCounts = fold (\<lambda>t cc. AList.update (id_t t) 0 cc) teams [],
       acc_modeState = initializeSimState md \<rparr>"

text \<open>The whole of \<open>simulateFullBracket\<close> up to its \<open>return\<close>, with the mode state the
  runs leave behind.\<close>

definition simulateRuns ::
  "Env \<Rightarrow> SerializedBracket \<Rightarrow> Team list \<Rightarrow> 'st SimulationMode \<Rightarrow> nat \<Rightarrow> int option
     \<Rightarrow> (error + 'st SimAcc) option" where
  "simulateRuns env bracket teams md simulationCount baseSeed =
     simLoop env bracket teams md baseSeed simulationCount 0 (initialAcc teams md)"

definition simulateFullBracket ::
  "Env \<Rightarrow> SerializedBracket \<Rightarrow> Team list \<Rightarrow> 'st SimulationMode \<Rightarrow> nat \<Rightarrow> int option
     \<Rightarrow> (error + BracketSimResult) option" where
  "simulateFullBracket env bracket teams md simulationCount baseSeed =
     andThen (simulateRuns env bracket teams md simulationCount baseSeed)
       (\<lambda>acc. Some (Inr \<lparr> roundCounts = acc_roundCounts acc,
                           championshipCounts = acc_championshipCounts acc,
                           totalSims = simulationCount \<rparr>))"

section \<open>Aggregator (aggregateBracketResults in src/engine/bracket-propagator.ts)\<close>

record TeamTournamentResult =
  teamId :: string
  teamName :: string
  seed_r :: int
  region_r :: Region
  roundProbabilities :: "Round \<rightharpoonup> real"
  championshipProbability :: real
  expectedWins :: real

text \<open>The result without its timestamp and the three derived fields no claim is about
  (most likely Final Four, biggest projected upset, volatility index).\<close>

record TournamentSimulationResult =
  modeId :: string
  modeName :: string
  tournamentType_r :: TournamentType
  simulationCount_r :: nat
  teamResults :: "(string \<times> TeamTournamentResult) list"
  mostLikelyChampion :: string

text \<open>\<open>roundProbs\<close> of one team: the two entries written first, then the loop over
  \<open>ROUNDS_IN_ORDER\<close>.\<close>

definition roundProbs :: "BracketSimResult \<Rightarrow> string \<Rightarrow> (Round \<rightharpoonup> real)" where
  "roundProbs simResult tid =
     fold (\<lambda>r m. m(r \<mapsto> real (roundCounts simResult tid r) / real (totalSims simResult)))
       ROUNDS_IN_ORDER
       (Map.empty(first_four \<mapsto> 1, round_of_64 \<mapsto> 1))"

definition teamResult :: "BracketSimResult \<Rightarrow> Team \<Rightarrow> TeamTournamentResult" where
  "teamResult simResult team =
     (let champCount = (case map_of (championshipCounts simResult) (id_t team) of
                          None \<Rightarrow> 0 | Some c \<Rightarrow> c);
          probs = roundProbs simResult (id_t team);
          wins = fold (\<lambda>r acc. if r = round_of_64 then acc
                                 else acc + (case probs r of None \<Rightarrow> 0 | Some p \<Rightarrow> p))
                   ROUNDS_IN_ORDER 0
      in \<lparr> teamId = id_t team, teamName = name_t team, seed_r = seed team,
           region_r = region_t team, roundProbabilities = probs,
           championshipProbability = real champCount / real (totalSims simResult),
           expectedWins = wins \<rparr>)"

text \<open>The loop that finds the most likely champion; the accumulator is
  \<open>(mostLikelyChampion, maxChampProb)\<close>.\<close>

definition championStep :: "string \<times> nat \<Rightarrow> string \<times> nat \<Rightarrow> string \<times> nat" where
  "championStep entry best = (if snd entry > snd best then (fst entry, snd entry) else best)"

definition findMostLikelyChampion :: "(string \<times> nat) list \<Rightarrow> string" where
  "findMostLikelyChampion entries = fst (fold championStep entries ([], 0))"

definition aggregateBracketResults ::
  "BracketSimResult \<Rightarrow> Team list \<Rightarrow> string \<Rightarrow> string \<Rightarrow> TournamentType \<Rightarrow> TournamentSimulationResult" where
  "aggregateBracketResults simResult teams mId mName tt =
     \<lparr> modeId = mId, modeName = mName, tournamentType_r = tt,
       simulationCount_r = totalSims simResult,
       teamResults = fold (\<lambda>t res. AList.update (id_t t) (teamResult simResult t) res) teams [],
       mostLikelyChampion = findMostLikelyChampion (championshipCounts simResult) \<rparr>"

section \<open>The base probability in binary64 arithmetic\<close>

text \<open>
  A JavaScript number is an IEEE-754 double. A finite double is taken as the real number it
  stands for (the two zeros are one). \<open>rne\<close> rounds a real to the nearest integer, a tie to
  the even one; \<open>expo\<close> is the exponent of the binade of a number, not below that of the
  subnormal numbers; \<open>fl\<close> rounds a real to the nearest number with 53 significant bits
  (below \<open>2^-1022\<close>: to the nearest multiple of \<open>2^-1074\<close>). \<open>num64 r\<close> is the result of an
  operation whose exact result is \<open>r\<close>: the rounded value, or \<open>None\<close> when it overflows. On
  overflow the code goes on with an infinity or a NaN, which the model does not follow: a
  computation that is \<open>None\<close> here has left the finite numbers.
\<close>

definition rne :: "real \<Rightarrow> int" where
  "rne r = (let f = \<lfloor>r\<rfloor>; d = r - of_int f in
            if d < 1/2 then f else if 1/2 < d then f + 1 else if even f then f else f + 1)"

definition expo :: "real \<Rightarrow> int" where
  "expo y = max \<lfloor>log 2 \<bar>y\<bar>\<rfloor> (- 1022)"

definition fl :: "real \<Rightarrow> real" where
  "fl y = (if y = 0 then 0
           else of_int (rne (y / 2 powr of_int (expo y - 52))) * 2 powr of_int (expo y - 52))"

definition num64 :: "real \<Rightarrow> real option" where
  "num64 r = (if \<bar>fl r\<bar> < 2 ^ 1024 then Some (fl r) else None)"

text \<open>ECMAScript leaves the accuracy of \<open>Math.exp\<close> to the implementation; it is taken to be
  correctly rounded. \<open>None\<close> is \<open>Infinity\<close>: \<open>1 + Infinity\<close> is \<open>Infinity\<close> and
  \<open>1 / Infinity\<close> is 0. The divisor is at least 1, so the quotient does not overflow.\<close>

definition Math_exp :: "real \<Rightarrow> real option" where
  "Math_exp x = num64 (exp x)"

definition sigmoid64 :: "real \<Rightarrow> real" where
  "sigmoid64 x =
     (case Math_exp (- x) of
        None \<Rightarrow> 0
      | Some e \<Rightarrow> (case num64 (1 + e) of None \<Rightarrow> 0 | Some s \<Rightarrow> fl (1 / s)))"

text \<open>\<open>computeMomentumScore\<close>, \<open>getMetricValue\<close> and the loop body of
  \<open>computeBaseWinProbability\<close> with every operation rounded. The literals \<open>0.03\<close>, \<open>0.15\<close>
  and the entries of \<open>NORMALIZATION\<close> are the doubles nearest to them; \<open>0.5\<close>, \<open>2\<close> and
  \<open>0.25\<close> are doubles. Metrics and weights are read as they are given.\<close>

definition computeMomentumScore64 :: "TeamMetrics \<Rightarrow> real option" where
  "computeMomentumScore64 m =
     Option.bind (num64 (last10Wins m + last10Losses m)) (\<lambda>games.
     Option.bind (num64 (last10Wins m / (if games = 0 then 1 else games))) (\<lambda>last10WinPct.
     Option.bind (num64 (winStreak m * fl 0.03)) (\<lambda>bonus.
     Option.bind (num64 (last10WinPct - 0.5)) (\<lambda>centred.
     Option.bind (num64 (centred * 2)) (\<lambda>doubled.
       num64 (doubled + min bonus (fl 0.15)))))))"

definition getMetricValue64 :: "Team \<Rightarrow> string \<Rightarrow> real option" where
  "getMetricValue64 team key =
     (if key = ''momentumScore'' then computeMomentumScore64 (metrics team)
      else Some (getMetricValue team key))"

definition logitStep64 :: "Team \<Rightarrow> Team \<Rightarrow> string \<times> real \<Rightarrow> real option \<Rightarrow> real option" where
  "logitStep64 team1 team2 kw acc =
     Option.bind acc (\<lambda>logit.
       let key = fst kw; w = snd kw in
       if w = 0 then Some logit
       else
         Option.bind (getMetricValue64 team1 key) (\<lambda>v1.
         Option.bind (getMetricValue64 team2 key) (\<lambda>v2.
         let norm = (case map_of NORMALIZATION key of None \<Rightarrow> 1 | Some n \<Rightarrow> fl n) in
         Option.bind (num64 (v1 - v2)) (\<lambda>d.
         Option.bind (num64 (d / norm)) (\<lambda>diff.
         let diff' = (if key \<in> LOWER_IS_BETTER then - diff else diff) in
         Option.bind (num64 (w * diff')) (\<lambda>contribution. num64 (logit + contribution)))))))"

definition computeBaseWinProbability64 :: "Team \<Rightarrow> Team \<Rightarrow> (string \<times> real) list \<Rightarrow> real option" where
  "computeBaseWinProbability64 team1 team2 weights =
     Option.bind (fold (logitStep64 team1 team2) weights (Some 0)) (\<lambda>logit.
     Option.bind (num64 (logit * 0.25)) (\<lambda>x. Some (sigmoid64 x)))"

section \<open>Bracket builder (src/bracket/bracket-builder.ts)\<close>



text \<open>The string of a region and of a one-digit number in a template literal.\<close>

fun regionName :: "Region \<Rightarrow> string" where
  "regionName east = ''east''"
| "regionName west = ''west''"
| "regionName south = ''south''"
| "regionName midwest = ''midwest''"






section \<open>Vocabulary of the proofs\<close>

text \<open>The generator state is not the all-zero state (the one state from which xoshiro128** only
  ever returns 0).\<close>

definition nz :: "rng_state \<Rightarrow> bool" where
  "nz st = (st \<noteq> (0, 0, 0, 0))"

text \<open>The string a slot field holds, as \<open>slot.team1Id!\<close> reads it.\<close>

definition idOf :: "string option \<Rightarrow> string" where
  "idOf v = (case v of None \<Rightarrow> [] | Some a \<Rightarrow> a)"

text \<open>Both teams of a slot are set and found in the roster: the game is played, not skipped.\<close>

definition playable :: "Team list \<Rightarrow> BracketSlot \<Rightarrow> bool" where
  "playable teams s =
     (truthy (team1Id s) \<and> truthy (team2Id s)
      \<and> teamMap_get teams (idOf (team1Id s)) \<noteq> None
      \<and> teamMap_get teams (idOf (team2Id s)) \<noteq> None)"

text \<open>The index of the slot a winner of slot \<open>i\<close> advances into, if any.\<close>

definition target :: "BracketSimState \<Rightarrow> nat \<Rightarrow> nat option" where
  "target st i =
     (case nextSlotId (st ! i) of
        None \<Rightarrow> None
      | Some n \<Rightarrow> if n = [] then None else slots_get st n)"

text \<open>The state \<open>setWinner\<close> leaves behind, written with indices.\<close>

definition applyWin :: "BracketSimState \<Rightarrow> nat \<Rightarrow> string \<Rightarrow> BracketSimState" where
  "applyWin st i w =
     (let st1 = st[i := (st ! i)\<lparr>winnerId := Some w\<rparr>]
      in case target st i of
           None \<Rightarrow> st1
         | Some j \<Rightarrow> st1[j := advanceInto (st1 ! j) w])"

text \<open>The fields of the slots that no run changes.\<close>

definition skel :: "BracketSlot list \<Rightarrow> (string \<times> Round \<times> string option) list" where
  "skel st = map (\<lambda>s. (slotId s, round_s s, nextSlotId s)) st"

text \<open>Every \<open>nextSlotId\<close> that resolves leads to a slot of the next round.\<close>

definition feedsNextRound :: "BracketSlot list \<Rightarrow> bool" where
  "feedsNextRound ss =
     (\<forall>s \<in> set ss. \<forall>s' \<in> set ss.
         nextSlotId s = Some (slotId s') \<longrightarrow>
         ROUND_INDEX (round_s s') = ROUND_INDEX (round_s s) + 1)"

text \<open>No slot after the round of 64 has a team yet.\<close>

definition laterRoundsEmpty :: "BracketSlot list \<Rightarrow> bool" where
  "laterRoundsEmpty ss =
     (\<forall>s \<in> set ss. 0 < ROUND_INDEX (round_s s) \<longrightarrow>
         \<not> truthy (team1Id s) \<and> \<not> truthy (team2Id s))"


section \<open>Invariants of the simulation loops\<close>

text \<open>How many of the two team fields of a slot hold team \<open>t\<close>.\<close>

definition ent :: "string \<Rightarrow> BracketSlot \<Rightarrow> nat" where
  "ent t s =
     (if t = [] then 0
      else (if team1Id s = Some t then 1 else 0) + (if team2Id s = Some t then 1 else 0))"

text \<open>How many team fields of the slots of round \<open>r\<close> hold team \<open>t\<close>.\<close>

definition occ :: "BracketSimState \<Rightarrow> Round \<Rightarrow> string \<Rightarrow> nat" where
  "occ st r t = sum_list (map (\<lambda>s. if round_s s = r then ent t s else 0) st)"

text \<open>The same count over the games \<open>G\<close> of the current round that are still to be played.\<close>

definition pend :: "BracketSimState \<Rightarrow> nat list \<Rightarrow> string \<Rightarrow> nat" where
  "pend st G t = sum_list (map (\<lambda>i. ent t (st ! i)) G)"

text \<open>The appearances of team \<open>t\<close> in round \<open>q\<close> that are still to be counted, while
  round \<open>k\<close> is being played and \<open>G\<close> are its remaining games.\<close>

definition pe :: "nat \<Rightarrow> nat list \<Rightarrow> BracketSimState \<Rightarrow> nat \<Rightarrow> string \<Rightarrow> nat" where
  "pe k G st q t =
     (if q < k then 0 else if q = k then pend st G t else occ st (ROUNDS_IN_ORDER ! q) t)"

text \<open>Invariant of the loop over the games of round \<open>k\<close>: the count of a round, plus what is
  still to be counted there, is at most the count of the round before.\<close>

definition mono3 :: "nat \<Rightarrow> nat list \<Rightarrow> BracketSimState \<Rightarrow> (string \<Rightarrow> Round \<Rightarrow> nat) \<Rightarrow> bool" where
  "mono3 k G st rc =
     (\<forall>t. \<forall>q < 5. rc t (ROUNDS_IN_ORDER ! Suc q) + pe k G st (Suc q) t \<le> rc t (ROUNDS_IN_ORDER ! q))"

text \<open>The same invariant between two rounds.\<close>

definition btw :: "nat \<Rightarrow> BracketSimState \<Rightarrow> (string \<Rightarrow> Round \<Rightarrow> nat) \<Rightarrow> bool" where
  "btw k st rc =
     (\<forall>t. \<forall>q < 5. rc t (ROUNDS_IN_ORDER ! Suc q)
                    + (if Suc q < k then 0 else occ st (ROUNDS_IN_ORDER ! Suc q) t)
                  \<le> rc t (ROUNDS_IN_ORDER ! q))"

text \<open>The counts of a team do not increase from one round to the next.\<close>

definition monotoneCounts :: "(string \<Rightarrow> Round \<Rightarrow> nat) \<Rightarrow> bool" where
  "monotoneCounts rc = (\<forall>t. \<forall>q < 5. rc t (ROUNDS_IN_ORDER ! Suc q) \<le> rc t (ROUNDS_IN_ORDER ! q))"







section \<open>The bracket of the builder, written out\<close>


text \<open>A slot without winner and live game.\<close>

definition builtSlot ::
  "string \<Rightarrow> Round \<Rightarrow> SlotRegion \<Rightarrow> string option \<Rightarrow> string option \<Rightarrow> string option
     \<Rightarrow> BracketSlot" where
  "builtSlot sid r rg t1 t2 nx =
     \<lparr> slotId = sid, round_s = r, region_s = rg, team1Id = t1, team2Id = t2,
       winnerId = None, liveGame = None, nextSlotId = nx \<rparr>"


definition eliteEight :: "Region \<Rightarrow> string option \<Rightarrow> BracketSlot" where
  "eliteEight rg nx = builtSlot (regionName rg @ ''-r4-g1'') elite_eight (region rg) None None nx"




section \<open>Rounding errors\<close>

text \<open>Half the distance between 1 and the next double.\<close>

definition u64 :: real where
  "u64 = 1 / 2 ^ 53"

text \<open>The term one metric adds to the logit, from the difference of the two values on.\<close>

definition weighted64 :: "string \<times> real \<Rightarrow> real \<Rightarrow> real option" where
  "weighted64 kw r =
     Option.bind (num64 r) (\<lambda>d.
     Option.bind (num64 (d / (case map_of NORMALIZATION (fst kw) of None \<Rightarrow> 1 | Some n \<Rightarrow> fl n))) (\<lambda>diff.
       num64 (snd kw * (if fst kw \<in> LOWER_IS_BETTER then - diff else diff))))"

section \<open>Example inputs\<close>

text \<open>The team of the tests' \<open>makeTeam\<close> (tests/engine/probability-model.test.ts).\<close>

definition defaultMetrics :: TeamMetrics where
  "defaultMetrics =
     \<lparr> adjOffensiveEfficiency = 100, adjDefensiveEfficiency = 100, adjTempo = 67,
       strengthOfSchedule = 0, nonConferenceSOS = 0, effectiveFGPct = 0.500,
       threePointRate = 0.350, threePointPct = 0.340, freeThrowRate = 0.300,
       freeThrowPct = 0.700, offensiveReboundPct = 0.300, defensiveReboundPct = 0.700,
       turnoverPct = 0.180, stealPct = 0.090, averageHeight = 77, benchMinutesPct = 0.35,
       experienceRating = 2.0, wins = 20, losses = 10, conferenceWins = 10,
       conferenceLosses = 8, last10Wins = 5, last10Losses = 5, winStreak = 0 \<rparr>"

definition makeTeam :: "string \<Rightarrow> int \<Rightarrow> Team" where
  "makeTeam tid sd =
     \<lparr> id_t = tid, name_t = ''Test Team'', shortName = ''Test'', seed = sd, region_t = east,
       conference = ''Test'', tournamentType_t = mens, metrics = defaultMetrics \<rparr>"

definition emptySlot :: "string \<Rightarrow> Round \<Rightarrow> string option \<Rightarrow> BracketSlot" where
  "emptySlot sid r nxt =
     \<lparr> slotId = sid, round_s = r, region_s = region east, team1Id = None, team2Id = None,
       winnerId = None, liveGame = None, nextSlotId = nxt \<rparr>"

definition firstSlot :: "string \<Rightarrow> string \<Rightarrow> string \<Rightarrow> string option \<Rightarrow> BracketSlot" where
  "firstSlot sid t1 t2 nxt = (emptySlot sid round_of_64 nxt)\<lparr>team1Id := Some t1, team2Id := Some t2\<rparr>"

text \<open>Two round-of-64 games of a region feeding its first round-of-32 game, as
  \<open>buildRegion\<close> wires them.\<close>

definition miniSlots :: "BracketSlot list" where
  "miniSlots =
     [firstSlot ''east-r1-g1'' ''east-1'' ''east-16'' (Some ''east-r2-g1''),
      firstSlot ''east-r1-g2'' ''east-8'' ''east-9'' (Some ''east-r2-g1''),
      emptySlot ''east-r2-g1'' round_of_32 None]"

definition miniBracket :: SerializedBracket where
  "miniBracket = \<lparr> tournamentType_b = mens, year = 2025, slots = miniSlots \<rparr>"

definition miniBlender :: LiveStateBlender where
  "miniBlender = \<lparr> baseBracket = miniBracket, teams_b = [], lockedSlots = {} \<rparr>"

definition tiedFinal :: LiveGameState where
  "tiedFinal =
     \<lparr> gameId = ''g1'', homeTeamId = ''east-1'', awayTeamId = ''east-16'', round_g = round_of_64,
       homeScore = 70, awayScore = 70, period = 2, timeRemainingSeconds = 0, status = final,
       lastUpdated = 0 \<rparr>"

text \<open>Two components with the mode of pure-statistical.ts, which is tagged
  statistically-validated.\<close>

definition validatedPair :: "unit BlendComponent list" where
  "validatedPair =
     [\<lparr> mode = PureStatisticalMode, weight = 0.5 \<rparr>, \<lparr> mode = PureStatisticalMode, weight = 0.5 \<rparr>]"

definition blendConfig :: BlenderConfig where
  "blendConfig = \<lparr> id_cfg = ''blend'', name_cfg = ''Blend'', description_cfg = ''A blend'' \<rparr>"

text \<open>Counts of two runs in which a 2-seed, listed first in the roster, and a 1-seed won
  one championship each.\<close>

definition tiedTeams :: "Team list" where
  "tiedTeams = [makeTeam ''east-2'' 2, makeTeam ''east-1'' 1]"

definition tiedCounts :: BracketSimResult where
  "tiedCounts =
     \<lparr> roundCounts = (\<lambda>tid r. if r = first_four then 0 else if r = championship then 1 else 2),
       championshipCounts = [(''east-2'', 1), (''east-1'', 1)],
       totalSims = 2 \<rparr>"

text \<open>Counts of two runs of a bracket in which the round-of-64 game of east-1 was locked
  before the simulation: east-1 is counted in the round of 32 only.\<close>

definition lockedTeams :: "Team list" where
  "lockedTeams = [makeTeam ''east-1'' 1, makeTeam ''east-8'' 8, makeTeam ''east-9'' 9]"

definition lockedCounts :: BracketSimResult where
  "lockedCounts =
     \<lparr> roundCounts = (\<lambda>tid r. if tid = ''east-1'' then (if r = round_of_32 then 2 else 0)
                               else if r = round_of_64 then 2
                               else if r = round_of_32 then 1 else 0),
       championshipCounts = [(''east-1'', 0), (''east-8'', 0), (''east-9'', 0)],
       totalSims = 2 \<rparr>"

text \<open>The four teams of \<open>miniSlots\<close>, a clock and the default \<open>LIVE_STATE_GAMMA\<close> of
  src/config.ts.\<close>

definition miniTeams :: "Team list" where
  "miniTeams = [makeTeam ''east-1'' 1, makeTeam ''east-16'' 16, makeTeam ''east-8'' 8,
                makeTeam ''east-9'' 9]"

definition exampleEnv :: Env where
  "exampleEnv = \<lparr> now = (\<lambda>i. 1700000000000), LIVE_STATE_GAMMA = 0.7 \<rparr>"

text \<open>The bracket of \<open>miniBlender\<close> after both round-of-64 results have been locked, as the
  real-time loop hands it to the simulation; \<open>lateSlots\<close> are its slots written out.\<close>

definition lateBracket :: SerializedBracket where
  "lateBracket =
     baseBracket (lockResult (lockResult miniBlender ''east-r1-g1'' ''east-1'')
                    ''east-r1-g2'' ''east-8'')"

definition lateSlots :: "BracketSlot list" where
  "lateSlots =
     [(firstSlot ''east-r1-g1'' ''east-1'' ''east-16'' (Some ''east-r2-g1''))\<lparr>winnerId := Some ''east-1''\<rparr>,
      (firstSlot ''east-r1-g2'' ''east-8'' ''east-9'' (Some ''east-r2-g1''))\<lparr>winnerId := Some ''east-8''\<rparr>,
      (emptySlot ''east-r2-g1'' round_of_32 None)\<lparr>team1Id := Some ''east-1'', team2Id := Some ''east-8''\<rparr>]"

text \<open>A mode that counts, in its state, the games it has been told about.\<close>

definition counterMode :: "nat SimulationMode" where
  "counterMode =
     PureStatisticalMode\<lparr> onGameComplete := Some (\<lambda>winner loser r s. Suc s),
                           initializeSimState := Some 0 \<rparr>"





text \<open>A team that scores 120 and allows 80 points per 100 possessions, a team with the
  metrics of \<open>makeTeam\<close>, and a second team with the same metrics.\<close>

definition eliteTeam :: Team where
  "eliteTeam =
     (makeTeam ''elite'' 1)\<lparr>metrics :=
        defaultMetrics\<lparr>adjOffensiveEfficiency := 120, adjDefensiveEfficiency := 80\<rparr>\<rparr>"

definition averageTeam :: Team where
  "averageTeam = makeTeam ''average'' 8"

definition averageTwin :: Team where
  "averageTwin = makeTeam ''twin'' 9"

section \<open>Live-state blender: a final game with level scores\<close>

lemma blend_slots_nth:
  "i < length (slots (baseBracket b)) \<Longrightarrow>
   slots (bracket_adj (blend b lgs)) ! i
     = fst (blend_slot (lockedSlots b) lgs (slots (baseBracket b) ! i))"
  by (simp add: blend_def Let_def)

text \<open>
  Claim C10. When \<open>blend\<close> finds, for a slot that is not locked, a live game with status
  \<open>final\<close> whose home score equals its away score, the adjusted slot has the away team as
  \<open>winnerId\<close> (the comparison is \<open>homeScore > awayScore\<close>, so the home team wins only with
  the strictly greater score), the live game is attached, and the slot id is among the
  completed slot ids.
\<close>

theorem blend_final_tie_away:
  assumes "i < length (slots (baseBracket b))"
    and "slotId (slots (baseBracket b) ! i) \<notin> lockedSlots b"
    and "findLiveGameForSlot (slots (baseBracket b) ! i) liveGames = Some lg"
    and "status lg = final"
    and "homeScore lg = awayScore lg"
  shows "winnerId (slots (bracket_adj (blend b liveGames)) ! i) = Some (awayTeamId lg)
       \<and> liveGame (slots (bracket_adj (blend b liveGames)) ! i) = Some lg
       \<and> slotId (slots (baseBracket b) ! i) \<in> set (completedGameSlots (blend b liveGames))"
proof -
  let ?s = "slots (baseBracket b) ! i"
  have bs: "blend_slot (lockedSlots b) liveGames ?s
        = (?s\<lparr>winnerId := Some (awayTeamId lg), liveGame := Some lg\<rparr>, mark_completed)"
    using assms by (simp add: blend_slot_def)
  have mem: "?s \<in> set (slots (baseBracket b))" using assms(1) by simp
  have "slotId ?s \<in> set (completedGameSlots (blend b liveGames))"
    unfolding blend_def Let_def using mem bs
    by (auto simp: image_iff intro!: bexI[of _ ?s])
  then show ?thesis using assms(1) bs by (simp add: blend_slots_nth)
qed

theorem blend_final_tie_away_witness:
  "0 < length (slots (baseBracket miniBlender))
   \<and> slotId (slots (baseBracket miniBlender) ! 0) \<notin> lockedSlots miniBlender
   \<and> findLiveGameForSlot (slots (baseBracket miniBlender) ! 0) [(''g1'', tiedFinal)] = Some tiedFinal
   \<and> status tiedFinal = final
   \<and> homeScore tiedFinal = awayScore tiedFinal
   \<and> (winnerId (slots (bracket_adj (blend miniBlender [(''g1'', tiedFinal)])) ! 0)
         = Some (awayTeamId tiedFinal)
      \<and> liveGame (slots (bracket_adj (blend miniBlender [(''g1'', tiedFinal)])) ! 0) = Some tiedFinal
      \<and> slotId (slots (baseBracket miniBlender) ! 0)
           \<in> set (completedGameSlots (blend miniBlender [(''g1'', tiedFinal)])))"
proof -
  have h1: "0 < length (slots (baseBracket miniBlender))"
    by (simp add: miniBlender_def miniBracket_def miniSlots_def)
  have h2: "slotId (slots (baseBracket miniBlender) ! 0) \<notin> lockedSlots miniBlender"
    by (simp add: miniBlender_def)
  have h3: "findLiveGameForSlot (slots (baseBracket miniBlender) ! 0) [(''g1'', tiedFinal)]
              = Some tiedFinal"
    by (simp add: miniBlender_def miniBracket_def miniSlots_def firstSlot_def emptySlot_def
        findLiveGameForSlot_def tiedFinal_def)
  have h4: "status tiedFinal = final" by (simp add: tiedFinal_def)
  have h5: "homeScore tiedFinal = awayScore tiedFinal" by (simp add: tiedFinal_def)
  note c = blend_final_tie_away [OF h1 h2 h3 h4 h5]
  show ?thesis by (intro conjI h1 h2 h3 h4 h5 c [THEN conjunct1]
        c [THEN conjunct2, THEN conjunct1] c [THEN conjunct2, THEN conjunct2])
qed

section \<open>Mode blender: category and confidence tag of a blend\<close>

text \<open>
  Claim C9, as amended. For a blender of at least two components the constructor
  returns, the confidence tag of the blend is \<open>experimental\<close> whatever the tags of the
  components are, and its category is \<open>entertainment\<close> if a component is tagged
  whimsical, \<open>research\<close> if no component is and all have category research, and
  \<open>hybrid\<close> otherwise.
\<close>

theorem ModeBlender_tags:
  assumes "2 \<le> length comps"
  shows "\<exists>b. ModeBlender_new comps config = Inr b
           \<and> confidenceTag_mb b = experimental
           \<and> category_mb b =
               (if (\<exists>c \<in> set comps. confidenceTag (mode c) = whimsical) then entertainment
                else if (\<forall>c \<in> set comps. category (mode c) = research) then research
                else hybrid)"
  using assms by (simp add: ModeBlender_new_def Let_def list_ex_iff list_all_iff)

theorem ModeBlender_tags_witness:
  "2 \<le> length validatedPair
   \<and> (\<exists>b. ModeBlender_new validatedPair blendConfig = Inr b
           \<and> confidenceTag_mb b = experimental
           \<and> category_mb b =
               (if (\<exists>c \<in> set validatedPair. confidenceTag (mode c) = whimsical) then entertainment
                else if (\<forall>c \<in> set validatedPair. category (mode c) = research) then research
                else hybrid))"
proof -
  have h: "2 \<le> length validatedPair" by (simp add: validatedPair_def)
  show ?thesis by (intro conjI h ModeBlender_tags [OF h])
qed

text \<open>The claim as stated fails: two components that are both tagged
  statistically-validated give a blend tagged \<open>experimental\<close>.\<close>

theorem ModeBlender_validated_pair_is_experimental:
  "list_all (\<lambda>c. confidenceTag (mode c) = statistically_validated) validatedPair
   \<and> (case ModeBlender_new validatedPair blendConfig of
        Inl e \<Rightarrow> False
      | Inr b \<Rightarrow> confidenceTag_mb b = experimental
                 \<and> confidenceTag_mb b \<noteq> statistically_validated)"
  by (simp add: validatedPair_def ModeBlender_new_def PureStatisticalMode_def Let_def)

section \<open>Aggregator\<close>

lemma roundProbs_values:
  "roundProbs simResult tid first_four = Some 1"
  "r \<noteq> first_four \<Longrightarrow>
     roundProbs simResult tid r
       = Some (real (roundCounts simResult tid r) / real (totalSims simResult))"
  by (cases r; simp add: roundProbs_def ROUNDS_IN_ORDER_def)+

text \<open>
  Claim C7 (the code differs from it). The entry \<open>roundProbs['round-of-64'] = 1\<close> is
  overwritten by the loop over \<open>ROUNDS_IN_ORDER\<close>, which starts with round-of-64: the
  reported probability is the count divided by the number of runs. For a team whose
  round-of-64 game was already decided when the bracket was simulated the count is 0,
  and so is the reported probability; the first-four entry stays 1.
\<close>

theorem aggregate_round_of_64_is_count:
  "map_option (\<lambda>res. (roundProbabilities res first_four, roundProbabilities res round_of_64,
                        roundProbabilities res round_of_32))
     (map_of (teamResults (aggregateBracketResults lockedCounts lockedTeams
                ''pure-statistical'' ''Serious Analytics'' mens)) ''east-1'')
   = Some (Some 1, Some 0, Some 1)"
  by (simp add: aggregateBracketResults_def teamResult_def lockedTeams_def lockedCounts_def
      makeTeam_def roundProbs_values Let_def)

lemma championStep_inv:
  "case fold championStep es ([], 0) of (b, m) \<Rightarrow>
     (m = 0 \<and> b = [] \<and> (\<forall>e \<in> set es. snd e = 0))
   \<or> (0 < m \<and> (\<exists>i < length es. b = fst (es ! i) \<and> m = snd (es ! i)
                 \<and> (\<forall>j < length es. snd (es ! j) \<le> m) \<and> (\<forall>j < i. snd (es ! j) < m)))"
proof (induction es rule: rev_induct)
  case Nil
  then show ?case by simp
next
  case (snoc x xs)
  obtain b m where bm: "fold championStep xs ([], 0) = (b, m)" by (cases "fold championStep xs ([], 0)")
  from snoc bm have IH:
    "(m = 0 \<and> b = [] \<and> (\<forall>e \<in> set xs. snd e = 0))
   \<or> (0 < m \<and> (\<exists>i < length xs. b = fst (xs ! i) \<and> m = snd (xs ! i)
                 \<and> (\<forall>j < length xs. snd (xs ! j) \<le> m) \<and> (\<forall>j < i. snd (xs ! j) < m)))"
    by simp
  show ?case
  proof (cases "snd x > m")
    case True
    have all_le: "\<forall>j < length xs. snd (xs ! j) \<le> m"
      using IH by (auto simp: all_set_conv_all_nth)
    have step: "fold championStep (xs @ [x]) ([], 0) = (fst x, snd x)"
      using True bm by (simp add: championStep_def)
    have "0 < snd x" using True by simp
    moreover have "\<exists>i < length (xs @ [x]). fst x = fst ((xs @ [x]) ! i) \<and> snd x = snd ((xs @ [x]) ! i)
        \<and> (\<forall>j < length (xs @ [x]). snd ((xs @ [x]) ! j) \<le> snd x)
        \<and> (\<forall>j < i. snd ((xs @ [x]) ! j) < snd x)"
    proof (intro exI[of _ "length xs"] conjI allI impI)
      fix j assume "j < length (xs @ [x])"
      then show "snd ((xs @ [x]) ! j) \<le> snd x"
        using all_le True by (cases "j < length xs") (auto simp: nth_append less_Suc_eq)
    next
      fix j assume "j < length xs"
      then show "snd ((xs @ [x]) ! j) < snd x"
        using all_le True by (auto simp: nth_append)
    qed simp_all
    ultimately show ?thesis unfolding step by (simp add: split_beta)
  next
    case False
    have step: "fold championStep (xs @ [x]) ([], 0) = (b, m)"
      using False bm by (simp add: championStep_def)
    from IH show ?thesis
    proof
      assume z: "m = 0 \<and> b = [] \<and> (\<forall>e \<in> set xs. snd e = 0)"
      then have "snd x = 0" using False by simp
      then show ?thesis unfolding step using z by simp
    next
      assume p: "0 < m \<and> (\<exists>i < length xs. b = fst (xs ! i) \<and> m = snd (xs ! i)
                 \<and> (\<forall>j < length xs. snd (xs ! j) \<le> m) \<and> (\<forall>j < i. snd (xs ! j) < m))"
      then obtain i where i: "i < length xs" "b = fst (xs ! i)" "m = snd (xs ! i)"
        "\<forall>j < length xs. snd (xs ! j) \<le> m" "\<forall>j < i. snd (xs ! j) < m" by blast
      have "\<exists>i < length (xs @ [x]). b = fst ((xs @ [x]) ! i) \<and> m = snd ((xs @ [x]) ! i)
        \<and> (\<forall>j < length (xs @ [x]). snd ((xs @ [x]) ! j) \<le> m)
        \<and> (\<forall>j < i. snd ((xs @ [x]) ! j) < m)"
      proof (intro exI[of _ i] conjI allI impI)
        fix j assume "j < length (xs @ [x])"
        then show "snd ((xs @ [x]) ! j) \<le> m"
          using i(4) False by (cases "j < length xs") (auto simp: nth_append less_Suc_eq)
      next
        fix j assume "j < i"
        then show "snd ((xs @ [x]) ! j) < m"
          using i(1,5) by (auto simp: nth_append)
      qed (use i in \<open>auto simp: nth_append\<close>)
      then show ?thesis unfolding step using p by simp
    qed
  qed
qed

text \<open>
  Claim C8, as amended. The most likely champion is the first entry of
  \<open>championshipCounts\<close> (in the order of \<open>Object.entries\<close>) whose count is the maximum:
  no entry has a greater count and every earlier entry has a smaller one. Seeds are not
  consulted. When no entry has a positive count the result is the empty string.
\<close>

theorem mostLikelyChampion_first_maximum:
  "((\<forall>e \<in> set (championshipCounts simResult). snd e = 0) \<longrightarrow>
      mostLikelyChampion (aggregateBracketResults simResult teams mId mName tt) = [])
   \<and> ((\<exists>e \<in> set (championshipCounts simResult). 0 < snd e) \<longrightarrow>
        (\<exists>i < length (championshipCounts simResult).
            mostLikelyChampion (aggregateBracketResults simResult teams mId mName tt)
              = fst (championshipCounts simResult ! i)
          \<and> (\<forall>j < length (championshipCounts simResult).
                snd (championshipCounts simResult ! j) \<le> snd (championshipCounts simResult ! i))
          \<and> (\<forall>j < i. snd (championshipCounts simResult ! j) < snd (championshipCounts simResult ! i))))"
proof -
  define es where "es = championshipCounts simResult"
  define champ where "champ = mostLikelyChampion (aggregateBracketResults simResult teams mId mName tt)"
  obtain b m where bm: "fold championStep es ([], 0) = (b, m)" by (cases "fold championStep es ([], 0)")
  have champ: "champ = b"
    by (simp add: champ_def aggregateBracketResults_def findMostLikelyChampion_def es_def[symmetric] bm)
  from championStep_inv[of es] bm
  have inv: "(m = 0 \<and> b = [] \<and> (\<forall>e \<in> set es. snd e = 0))
   \<or> (0 < m \<and> (\<exists>i < length es. b = fst (es ! i) \<and> m = snd (es ! i)
                 \<and> (\<forall>j < length es. snd (es ! j) \<le> m) \<and> (\<forall>j < i. snd (es ! j) < m)))"
    by simp
  have "((\<forall>e \<in> set es. snd e = 0) \<longrightarrow> champ = [])
       \<and> ((\<exists>e \<in> set es. 0 < snd e) \<longrightarrow>
            (\<exists>i < length es. champ = fst (es ! i)
               \<and> (\<forall>j < length es. snd (es ! j) \<le> snd (es ! i))
               \<and> (\<forall>j < i. snd (es ! j) < snd (es ! i))))"
  proof (intro conjI impI)
    assume z: "\<forall>e \<in> set es. snd e = 0"
    from inv show "champ = []"
    proof
      assume "0 < m \<and> (\<exists>i < length es. b = fst (es ! i) \<and> m = snd (es ! i)
                 \<and> (\<forall>j < length es. snd (es ! j) \<le> m) \<and> (\<forall>j < i. snd (es ! j) < m))"
      then obtain i where "i < length es" "m = snd (es ! i)" "0 < m" by blast
      with z have False by (metis nth_mem less_numeral_extra(3))
      then show ?thesis ..
    qed (simp add: champ)
  next
    assume "\<exists>e \<in> set es. 0 < snd e"
    with inv show "\<exists>i < length es. champ = fst (es ! i)
               \<and> (\<forall>j < length es. snd (es ! j) \<le> snd (es ! i))
               \<and> (\<forall>j < i. snd (es ! j) < snd (es ! i))"
      unfolding champ by auto
  qed
  then show ?thesis unfolding es_def champ_def .
qed

theorem mostLikelyChampion_first_maximum_witness:
  "(\<exists>e \<in> set (championshipCounts tiedCounts). 0 < snd e)
   \<and> (\<exists>i < length (championshipCounts tiedCounts).
            mostLikelyChampion (aggregateBracketResults tiedCounts tiedTeams ''m'' ''M'' mens)
              = fst (championshipCounts tiedCounts ! i)
          \<and> (\<forall>j < length (championshipCounts tiedCounts).
                snd (championshipCounts tiedCounts ! j) \<le> snd (championshipCounts tiedCounts ! i))
          \<and> (\<forall>j < i. snd (championshipCounts tiedCounts ! j) < snd (championshipCounts tiedCounts ! i)))"
proof -
  have h: "\<exists>e \<in> set (championshipCounts tiedCounts). 0 < snd e" by (simp add: tiedCounts_def)
  note c = mostLikelyChampion_first_maximum [of tiedCounts tiedTeams "''m''" "''M''" mens,
      THEN conjunct2, THEN mp, OF h]
  show ?thesis by (intro conjI h c)
qed

text \<open>The claim as stated fails: with the 2-seed listed before the 1-seed and one
  championship each, the 2-seed is reported.\<close>

theorem mostLikelyChampion_tie_ignores_seed:
  "mostLikelyChampion (aggregateBracketResults tiedCounts tiedTeams ''m'' ''M'' mens) = ''east-2''
   \<and> map id_t tiedTeams = [''east-2'', ''east-1'']
   \<and> map seed tiedTeams = [2, 1]
   \<and> championshipCounts tiedCounts = [(''east-2'', 1), (''east-1'', 1)]"
  by (simp add: aggregateBracketResults_def findMostLikelyChampion_def championStep_def
      tiedCounts_def tiedTeams_def makeTeam_def)

section \<open>Base win probability in exact arithmetic\<close>

lemma sigmoid_compl: "sigmoid x + sigmoid (- x) = 1"
proof -
  have e: "exp (- x) = 1 / exp x" by (simp add: exp_minus field_simps)
  have p: "1 + exp x \<noteq> 0" using exp_gt_zero[of x] by linarith
  have "1 / (1 + 1 / exp x) = exp x / (1 + exp x)" by (simp add: field_simps)
  then show ?thesis unfolding sigmoid_def using p
    by (simp add: e add_divide_distrib[symmetric] add.commute)
qed

lemma logitStep_neg: "logitStep B A kw (- x) = - logitStep A B kw x"
  by (simp add: logitStep_def Let_def diff_divide_distrib algebra_simps split: option.splits)

lemma fold_logit_neg: "fold (logitStep B A) W (- x) = - fold (logitStep A B) W x"
  by (induction W arbitrary: x) (simp_all add: logitStep_neg)

lemma logitStep_same: "metrics A = metrics B \<Longrightarrow> logitStep A B kw x = x"
  by (simp add: logitStep_def Let_def getMetricValue_def)

lemma fold_logit_same: "metrics A = metrics B \<Longrightarrow> fold (logitStep A B) W x = x"
  by (induction W arbitrary: x) (simp_all add: logitStep_same)

text \<open>
  The formula in exact arithmetic: over the real numbers the base probabilities of a pairing
  in its two orders add up to exactly 1, for any two teams and any weights, and two teams
  with the same metrics get one half. What the doubles of the program do is the subject of
  the next section.
\<close>

lemma base_probability_complementary_reals:
  "computeBaseWinProbability A B W + computeBaseWinProbability B A W = 1
   \<and> (metrics A = metrics B \<longrightarrow> computeBaseWinProbability A B W = 1 / 2)"
proof -
  have "fold (logitStep B A) W 0 = - fold (logitStep A B) W 0"
    using fold_logit_neg[of B A W 0] by simp
  then have 1: "computeBaseWinProbability A B W + computeBaseWinProbability B A W = 1"
    using sigmoid_compl[of "fold (logitStep A B) W 0 * 0.25"]
    by (simp add: computeBaseWinProbability_def Let_def)
  have 2: "metrics A = metrics B \<Longrightarrow> computeBaseWinProbability A B W = 1 / 2"
    by (simp add: computeBaseWinProbability_def Let_def fold_logit_same sigmoid_def)
  from 1 2 show ?thesis by blast
qed

section \<open>Base win probability in binary64 arithmetic\<close>

subsection \<open>Rounding to the nearest double\<close>

lemma rne_err: "\<bar>of_int (rne r) - r\<bar> \<le> 1/2"
  unfolding rne_def Let_def by (auto simp: abs_if) linarith+

lemma rne_unique:
  assumes "\<bar>r - of_int m\<bar> < 1/2"
  shows "rne r = m"
proof -
  have e: "\<bar>of_int (rne r) - r\<bar> \<le> 1/2" by (rule rne_err)
  have "\<bar>(of_int (rne r) :: real) - of_int m\<bar> < 1" using assms e by linarith
  then have "\<bar>rne r - m\<bar> < 1" by (metis of_int_diff of_int_abs of_int_less_1_iff)
  then show ?thesis by simp
qed

lemma rne_of_int [simp]: "rne (of_int m) = m"
  by (rule rne_unique) simp

lemma rne_neg: "rne (- r) = - rne r"
proof (cases "r = of_int \<lfloor>r\<rfloor>")
  case True
  then obtain m where "r = of_int m" ..
  then have "rne (- r) = rne (of_int (- m))" by simp
  also have "\<dots> = - m" by (rule rne_of_int)
  finally show ?thesis using \<open>r = of_int m\<close> by simp
next
  case False
  then have lt: "of_int \<lfloor>r\<rfloor> < r" using of_int_floor_le[of r] by linarith
  have fn: "\<lfloor>- r\<rfloor> = - \<lfloor>r\<rfloor> - 1"
    by (rule floor_unique) (use lt in \<open>simp_all, linarith+\<close>)
  let ?f = "\<lfloor>r\<rfloor>" and ?d = "r - of_int \<lfloor>r\<rfloor>"
  have dn: "- r - of_int (\<lfloor>- r\<rfloor>) = 1 - ?d" by (simp add: fn)
  consider "?d < 1/2" | "1/2 < ?d" | "?d = 1/2" by linarith
  then show ?thesis
  proof cases
    case 1
    then show ?thesis unfolding rne_def Let_def dn by (simp add: fn)
  next
    case 2
    then show ?thesis unfolding rne_def Let_def dn by (simp add: fn)
  next
    case 3
    then show ?thesis unfolding rne_def Let_def dn by (simp add: fn)
  qed
qed

lemma expo_neg [simp]: "expo (- y) = expo y"
  by (simp add: expo_def)

lemma fl_neg: "fl (- y) = - fl y"
  by (simp add: fl_def rne_neg)

lemma fl_zero [simp]: "fl 0 = 0"
  by (simp add: fl_def)

lemma expo_eq:
  assumes "2 powr of_int e \<le> \<bar>y\<bar>" and "\<bar>y\<bar> < 2 powr of_int (e + 1)" and "- 1022 \<le> e"
  shows "expo y = e"
proof -
  have "0 < (2::real) powr of_int e" by simp
  with assms(1) have "0 < \<bar>y\<bar>" by linarith
  then have "\<lfloor>log 2 \<bar>y\<bar>\<rfloor> = e"
    using assms(1,2) by (simp add: floor_log_eq_powr_iff)
  then show ?thesis using assms(3) by (simp add: expo_def)
qed

lemma fl_eq:
  assumes "2 powr of_int e \<le> \<bar>y\<bar>" and "\<bar>y\<bar> < 2 powr of_int (e + 1)" and "- 1022 \<le> e"
    and "\<bar>y / 2 powr of_int (e - 52) - of_int m\<bar> < 1/2"
  shows "fl y = of_int m * 2 powr of_int (e - 52)"
proof -
  have e: "expo y = e" by (rule expo_eq[OF assms(1-3)])
  have "0 < (2::real) powr of_int e" by simp
  with assms(1) have "0 < \<bar>y\<bar>" by linarith
  then have "y \<noteq> 0" by auto
  moreover have "rne (y / 2 powr of_int (e - 52)) = m" by (rule rne_unique[OF assms(4)])
  ultimately show ?thesis by (simp add: fl_def e)
qed

lemma fl_err: "\<bar>fl y - y\<bar> \<le> 2 powr of_int (expo y - 53)"
proof (cases "y = 0")
  case True
  then show ?thesis by simp
next
  case False
  let ?q = "(2::real) powr of_int (expo y - 52)"
  let ?a = "real_of_int (rne (y / ?q))"
  have q: "0 < ?q" by simp
  have "\<bar>?a - y / ?q\<bar> \<le> 1/2" by (rule rne_err)
  then have A: "\<bar>?a - y / ?q\<bar> * ?q \<le> 1/2 * ?q"
    using q by (intro mult_right_mono) simp_all
  have B: "\<bar>?a - y / ?q\<bar> * ?q = \<bar>?a * ?q - y\<bar>"
  proof -
    have "\<bar>?a - y / ?q\<bar> * ?q = \<bar>(?a - y / ?q) * ?q\<bar>"
      by (simp only: abs_mult abs_of_pos[OF q])
    also have "(?a - y / ?q) * ?q = ?a * ?q - y"
      by (simp only: left_diff_distrib) simp
    finally show ?thesis .
  qed
  have C: "1/2 * ?q = 2 powr of_int (expo y - 53)"
  proof -
    have "(2::real) powr of_int (expo y - 52) = 2 powr (of_int (expo y - 53) + 1)" by simp
    also have "\<dots> = 2 powr of_int (expo y - 53) * 2" by (simp only: powr_add) simp
    finally show ?thesis by simp
  qed
  have D: "fl y = ?a * ?q" using False by (simp only: fl_def if_False)
  from A have "\<bar>?a * ?q - y\<bar> \<le> 2 powr of_int (expo y - 53)"
    unfolding B C .
  then show ?thesis unfolding D .
qed

lemma expo_bound:
  assumes "y \<noteq> 0"
  shows "2 powr of_int (expo y - 53) \<le> \<bar>y\<bar> / 2 ^ 53 + 2 powr (- 1075)"
proof (cases "- 1022 \<le> \<lfloor>log 2 \<bar>y\<bar>\<rfloor>")
  case True
  then have e: "expo y = \<lfloor>log 2 \<bar>y\<bar>\<rfloor>" by (simp add: expo_def)
  have "2 powr of_int \<lfloor>log 2 \<bar>y\<bar>\<rfloor> \<le> \<bar>y\<bar>"
    using assms floor_log_eq_powr_iff[of "\<bar>y\<bar>" 2 "\<lfloor>log 2 \<bar>y\<bar>\<rfloor>"] by simp
  moreover have "(2::real) powr of_int (expo y - 53) = 2 powr of_int (expo y) / 2 ^ 53"
    by (simp add: powr_diff)
  ultimately have "(2::real) powr of_int (expo y - 53) \<le> \<bar>y\<bar> / 2 ^ 53"
    by (simp add: e divide_right_mono)
  moreover have "(0::real) \<le> 2 powr (- 1075)" by simp
  ultimately show ?thesis by linarith
next
  case False
  then have e: "expo y = - 1022" by (simp add: expo_def)
  have "(2::real) powr of_int (expo y - 53) = 2 powr (- 1075)" by (simp add: e)
  moreover have "0 \<le> \<bar>y\<bar> / 2 ^ 53" by simp
  ultimately show ?thesis by linarith
qed

lemma fl_bound: "\<bar>fl y - y\<bar> \<le> \<bar>y\<bar> / 2 ^ 53 + 2 powr (- 1075)"
proof (cases "y = 0")
  case True
  then show ?thesis by simp
next
  case False
  from fl_err[of y] expo_bound[OF False] show ?thesis by linarith
qed

subsection \<open>The logit of the swapped pairing\<close>

lemma num64_neg: "num64 (- r) = map_option uminus (num64 r)"
  by (simp add: num64_def fl_neg)

lemma num64_zero [simp]: "num64 0 = Some 0"
  by (simp add: num64_def)

lemma logitStep64_alt:
  "logitStep64 t1 t2 kw (Some l) =
     (if snd kw = 0 then Some l
      else Option.bind (getMetricValue64 t1 (fst kw)) (\<lambda>v1.
           Option.bind (getMetricValue64 t2 (fst kw)) (\<lambda>v2.
           Option.bind (weighted64 kw (v1 - v2)) (\<lambda>t. num64 (l + t)))))"
  by (simp add: logitStep64_def weighted64_def Let_def)

lemma weighted64_neg: "weighted64 kw (- r) = map_option uminus (weighted64 kw r)"
proof (cases "num64 r")
  case None
  then show ?thesis by (simp add: weighted64_def num64_neg)
next
  case (Some d)
  let ?n = "case map_of NORMALIZATION (fst kw) of None \<Rightarrow> 1 | Some n \<Rightarrow> fl n"
  have 1: "num64 (- d / ?n) = map_option uminus (num64 (d / ?n))"
    using num64_neg[of "d / ?n"] by simp
  show ?thesis
  proof (cases "num64 (d / ?n)")
    case None
    then show ?thesis using 1 by (simp add: weighted64_def num64_neg Some)
  next
    case q: (Some q)
    let ?q' = "if fst kw \<in> LOWER_IS_BETTER then - q else q"
    have "snd kw * (if fst kw \<in> LOWER_IS_BETTER then - (- q) else - q) = - (snd kw * ?q')"
      by simp
    then have 2: "num64 (snd kw * (if fst kw \<in> LOWER_IS_BETTER then - (- q) else - q))
        = map_option uminus (num64 (snd kw * ?q'))"
      by (simp only: num64_neg)
    have l: "weighted64 kw (- r) = num64 (snd kw * (if fst kw \<in> LOWER_IS_BETTER then - (- q) else - q))"
      unfolding weighted64_def num64_neg Some using 1 q by simp
    have r: "weighted64 kw r = num64 (snd kw * ?q')"
      unfolding weighted64_def Some using q by simp
    show ?thesis unfolding l r 2 ..
  qed
qed

lemma logitStep64_neg:
  "logitStep64 t2 t1 kw (map_option uminus acc) = map_option uminus (logitStep64 t1 t2 kw acc)"
proof (cases acc)
  case None
  then show ?thesis by (simp add: logitStep64_def)
next
  case (Some l)
  show ?thesis
  proof (cases "snd kw = 0")
    case True
    then show ?thesis by (simp add: logitStep64_alt Some)
  next
    case False
    show ?thesis
    proof (cases "getMetricValue64 t1 (fst kw)")
      case None
      then show ?thesis
        by (cases "getMetricValue64 t2 (fst kw)") (simp_all add: logitStep64_alt Some False)
    next
      case v1: (Some v1)
      show ?thesis
      proof (cases "getMetricValue64 t2 (fst kw)")
        case None
        then show ?thesis by (simp add: logitStep64_alt Some False v1)
      next
        case v2: (Some v2)
        have w: "weighted64 kw (v2 - v1) = map_option uminus (weighted64 kw (v1 - v2))"
          using weighted64_neg[of kw "v1 - v2"] by simp
        show ?thesis
        proof (cases "weighted64 kw (v1 - v2)")
          case None
          then show ?thesis by (simp add: logitStep64_alt Some False v1 v2 w)
        next
          case t: (Some t)
          have "- l + - t = - (l + t)" by simp
          then have "num64 (- l + - t) = map_option uminus (num64 (l + t))"
            by (simp only: num64_neg)
          then show ?thesis
            by (simp only: logitStep64_alt Some False v1 v2 w t option.map if_False
                Option.bind.bind_lunit)
        qed
      qed
    qed
  qed
qed

lemma fold_logit64_neg:
  "fold (logitStep64 t2 t1) ws (map_option uminus acc)
     = map_option uminus (fold (logitStep64 t1 t2) ws acc)"
  by (induction ws arbitrary: acc) (simp_all add: logitStep64_neg)

lemma base64_swap:
  assumes "fold (logitStep64 t1 t2) ws (Some 0) = Some l" and "num64 (l * 0.25) = Some x"
  shows "computeBaseWinProbability64 t1 t2 ws = Some (sigmoid64 x)"
    and "computeBaseWinProbability64 t2 t1 ws = Some (sigmoid64 (- x))"
proof -
  show "computeBaseWinProbability64 t1 t2 ws = Some (sigmoid64 x)"
    using assms by (simp add: computeBaseWinProbability64_def)
  have "fold (logitStep64 t2 t1) ws (Some 0) = Some (- l)"
    using fold_logit64_neg[of t2 t1 ws "Some 0"] assms(1) by simp
  moreover have "num64 (- l * 0.25) = Some (- x)"
    using num64_neg[of "l * 0.25"] assms(2) by simp
  ultimately show "computeBaseWinProbability64 t2 t1 ws = Some (sigmoid64 (- x))"
    by (simp add: computeBaseWinProbability64_def)
qed

subsection \<open>The rounding error of the two probabilities\<close>

lemma u64_pos: "0 < u64" and u64_small: "u64 \<le> 1 / 1000"
  and u64_tiny: "40 * u64 \<le> 1 / 10 ^ 9"
  by (simp_all add: u64_def)

lemma fl_u: "\<bar>fl y - y\<bar> \<le> (\<bar>y\<bar> + 1) * u64"
proof -
  have "(2::real) powr (- 1075) = 1 / 2 ^ 1075"
    by (simp add: powr_minus_divide)
  also have "\<dots> \<le> 1 / 2 ^ 53" by simp
  finally have 1: "(2::real) powr (- 1075) \<le> u64" by (simp add: u64_def)
  have 2: "\<bar>y\<bar> / 2 ^ 53 = \<bar>y\<bar> * u64" by (simp add: u64_def)
  have 3: "(\<bar>y\<bar> + 1) * u64 = \<bar>y\<bar> * u64 + u64" by (simp add: algebra_simps)
  from fl_bound[of y] show ?thesis unfolding 2 3 using 1 by linarith
qed

lemma recip_close:
  fixes s z c d :: real
  assumes c: "0 < c" and s: "c \<le> s" and z: "c \<le> z" and d: "\<bar>s - z\<bar> \<le> d"
  shows "\<bar>1 / s - 1 / z\<bar> \<le> d / (c * c)"
proof -
  have sp: "0 < s" and zp: "0 < z" using c s z by linarith+
  have "1 / s - 1 / z = (z - s) / (s * z)"
    using sp zp by (simp add: field_simps)
  then have "\<bar>1 / s - 1 / z\<bar> = \<bar>s - z\<bar> / (s * z)"
    using sp zp by (simp add: abs_minus_commute)
  also have "\<dots> \<le> d / (c * c)"
  proof -
    have 1: "c * c \<le> s * z" using c s z by (intro mult_mono) linarith+
    have 2: "0 < c * c" using c by simp
    have 3: "0 \<le> d" using d by linarith
    show ?thesis by (rule frac_le[OF 3 d 2 1])
  qed
  finally show ?thesis .
qed

lemma recip_sum_one:
  fixes a b :: real
  assumes "0 < a" "0 < b" "a * b = 1"
  shows "1 / (1 + a) + 1 / (1 + b) = 1"
proof -
  have "1 / (1 + a) + 1 / (1 + b) = (2 + a + b) / (1 + a + b + a * b)"
    using assms(1,2) by (simp add: field_simps)
  also have "\<dots> = 1" using assms by simp
  finally show ?thesis .
qed

lemma sig_small:
  assumes a: "0 < a" "a \<le> 1"
  shows "\<bar>fl a\<bar> < 2 ^ 1024" and "\<bar>fl (1 / fl (1 + fl a)) - 1 / (1 + a)\<bar> \<le> 27 * u64"
    and "\<bar>fl (1 + fl a)\<bar> < 2 ^ 1024"
proof -
  note up = u64_pos and us = u64_small
  have e1: "\<bar>fl a - a\<bar> \<le> 2 * u64"
  proof -
    have "\<bar>fl a - a\<bar> \<le> (\<bar>a\<bar> + 1) * u64" by (rule fl_u)
    also have "\<dots> \<le> 2 * u64" using a up by (intro mult_right_mono) simp_all
    finally show ?thesis .
  qed
  then have "\<bar>fl a\<bar> \<le> 2" using a us by linarith
  then show "\<bar>fl a\<bar> < 2 ^ 1024" by (rule le_less_trans) simp
  let ?s = "fl (1 + fl a)"
  have e2: "\<bar>?s - (1 + fl a)\<bar> \<le> 4 * u64"
  proof -
    have "\<bar>?s - (1 + fl a)\<bar> \<le> (\<bar>1 + fl a\<bar> + 1) * u64" by (rule fl_u)
    also have "\<dots> \<le> 4 * u64"
    proof (rule mult_right_mono)
      show "\<bar>1 + fl a\<bar> + 1 \<le> 4" using a e1 us by linarith
      show "0 \<le> u64" using up by simp
    qed
    finally show ?thesis .
  qed
  have d: "\<bar>?s - (1 + a)\<bar> \<le> 6 * u64" using e1 e2 by linarith
  have "\<bar>?s\<bar> \<le> 3" using d a us by linarith
  then show "\<bar>?s\<bar> < 2 ^ 1024" by (rule le_less_trans) simp
  have sl: "1 / 2 \<le> ?s" using d a us by linarith
  have zl: "1 / 2 \<le> 1 + a" using a by linarith
  have r: "\<bar>1 / ?s - 1 / (1 + a)\<bar> \<le> 24 * u64"
    using recip_close[of "1/2" ?s "1 + a" "6 * u64", OF _ sl zl d] by simp
  have i: "\<bar>1 / ?s\<bar> \<le> 2"
  proof -
    have "0 < ?s" using sl by linarith
    then have "1 / ?s \<le> 1 / (1 / 2)" using sl by (intro divide_left_mono) simp_all
    moreover have "0 \<le> 1 / ?s" using \<open>0 < ?s\<close> by simp
    ultimately show ?thesis by simp
  qed
  have e3: "\<bar>fl (1 / ?s) - 1 / ?s\<bar> \<le> 3 * u64"
  proof -
    have "\<bar>fl (1 / ?s) - 1 / ?s\<bar> \<le> (\<bar>1 / ?s\<bar> + 1) * u64" by (rule fl_u)
    also have "\<dots> \<le> 3 * u64"
    proof (rule mult_right_mono)
      show "\<bar>1 / ?s\<bar> + 1 \<le> 3" using i by linarith
      show "0 \<le> u64" using up by simp
    qed
    finally show ?thesis .
  qed
  show "\<bar>fl (1 / ?s) - 1 / (1 + a)\<bar> \<le> 27 * u64" using r e3 by linarith
qed

lemma sig_large_sum:
  assumes b: "1 \<le> b"
  shows "\<bar>fl (1 + fl b) - (1 + b)\<bar> \<le> (1 + b) / 2"
proof -
  note up = u64_pos and us = u64_small
  define B where "B = 1 + b"
  define X where "X = B * u64"
  have Bp: "2 \<le> B" using b by (simp add: B_def)
  have Xp: "0 \<le> X" using Bp up by (simp add: X_def)
  have XB: "8 * X \<le> B"
  proof -
    have "B * (8 * u64) \<le> B * 1" using Bp us by (intro mult_left_mono) linarith+
    then show ?thesis by (simp add: X_def algebra_simps)
  qed
  have e1: "\<bar>fl b - b\<bar> \<le> X"
    using fl_u[of b] b by (simp add: X_def B_def algebra_simps)
  let ?t = "fl (1 + fl b)"
  have e2: "\<bar>?t - (1 + fl b)\<bar> \<le> 3 * X"
  proof -
    have "\<bar>?t - (1 + fl b)\<bar> \<le> (\<bar>1 + fl b\<bar> + 1) * u64" by (rule fl_u)
    also have "\<dots> \<le> (3 * B) * u64"
    proof (rule mult_right_mono)
      show "\<bar>1 + fl b\<bar> + 1 \<le> 3 * B" using e1 XB Xp Bp unfolding B_def by argo
      show "0 \<le> u64" using up by simp
    qed
    finally show ?thesis by (simp add: X_def)
  qed
  have "\<bar>?t - B\<bar> \<le> 4 * X" using e1 e2 unfolding B_def by linarith
  then show ?thesis using XB unfolding B_def by argo
qed

lemma sig_overflow_sum:
  assumes b: "1 \<le> b" and o: "\<not> \<bar>fl (1 + fl b)\<bar> < 2 ^ 1024"
  shows "\<bar>0 - 1 / (1 + b)\<bar> \<le> u64"
proof -
  define M where "M = (2::real) ^ 1024"
  have o': "M \<le> \<bar>fl (1 + fl b)\<bar>" using o by (simp add: M_def)
  have "M \<le> 2 * (1 + b)" using sig_large_sum[OF b] o' b by argo
  moreover have "(2::real) ^ 54 \<le> M" by (simp add: M_def)
  ultimately have "(2::real) ^ 53 \<le> 1 + b" by simp
  then have "1 / (1 + b) \<le> 1 / 2 ^ 53" using b by (intro divide_left_mono) simp_all
  moreover have "0 \<le> 1 / (1 + b)" using b by simp
  ultimately show ?thesis by (simp add: u64_def)
qed

lemma sig_large:
  assumes b: "1 \<le> b"
  shows "\<bar>fl (1 / fl (1 + fl b)) - 1 / (1 + b)\<bar> \<le> 10 * u64"
proof -
  note up = u64_pos and us = u64_small
  define B where "B = 1 + b"
  define X where "X = B * u64"
  have Bp: "2 \<le> B" using b by (simp add: B_def)
  have Xp: "0 \<le> X" using Bp up by (simp add: X_def)
  have XB: "8 * X \<le> B"
  proof -
    have "B * (8 * u64) \<le> B * 1" using Bp us by (intro mult_left_mono) linarith+
    then show ?thesis by (simp add: X_def algebra_simps)
  qed
  have e1: "\<bar>fl b - b\<bar> \<le> X"
    using fl_u[of b] b by (simp add: X_def B_def algebra_simps)
  let ?t = "fl (1 + fl b)"
  have e2: "\<bar>?t - (1 + fl b)\<bar> \<le> 3 * X"
  proof -
    have "\<bar>?t - (1 + fl b)\<bar> \<le> (\<bar>1 + fl b\<bar> + 1) * u64" by (rule fl_u)
    also have "\<dots> \<le> (3 * B) * u64"
    proof (rule mult_right_mono)
      show "\<bar>1 + fl b\<bar> + 1 \<le> 3 * B" using e1 XB Xp Bp unfolding B_def by argo
      show "0 \<le> u64" using up by simp
    qed
    finally show ?thesis by (simp add: X_def)
  qed
  have d: "\<bar>?t - B\<bar> \<le> 4 * X" using e1 e2 unfolding B_def by linarith
  have tl: "B / 2 \<le> ?t" using d XB Xp by linarith
  have zl: "B / 2 \<le> B" using Bp by linarith
  have "\<bar>1 / ?t - 1 / B\<bar> \<le> (4 * X) / (B / 2 * (B / 2))"
    by (rule recip_close[OF _ tl zl d]) (use Bp in linarith)
  also have "\<dots> = 16 * u64 / B" using Bp by (simp add: X_def field_simps power2_eq_square)
  also have "\<dots> \<le> 16 * u64 / 2" using Bp up by (intro divide_left_mono) simp_all
  finally have r: "\<bar>1 / ?t - 1 / B\<bar> \<le> 8 * u64" by simp
  have i: "\<bar>1 / ?t\<bar> \<le> 1"
  proof -
    have "1 \<le> ?t" using tl Bp by linarith
    then show ?thesis by simp
  qed
  have e3: "\<bar>fl (1 / ?t) - 1 / ?t\<bar> \<le> 2 * u64"
  proof -
    have "\<bar>fl (1 / ?t) - 1 / ?t\<bar> \<le> (\<bar>1 / ?t\<bar> + 1) * u64" by (rule fl_u)
    also have "\<dots> \<le> 2 * u64"
    proof (rule mult_right_mono)
      show "\<bar>1 / ?t\<bar> + 1 \<le> 2" using i by linarith
      show "0 \<le> u64" using up by simp
    qed
    finally show ?thesis .
  qed
  show ?thesis using r e3 unfolding B_def by linarith
qed

lemma sig_overflow:
  assumes b: "1 \<le> b" and o: "\<not> \<bar>fl b\<bar> < 2 ^ 1024"
  shows "\<bar>0 - 1 / (1 + b)\<bar> \<le> u64"
proof -
  define X where "X = (1 + b) * u64"
  have e1: "\<bar>fl b - b\<bar> \<le> X"
    using fl_u[of b] b by (simp add: X_def algebra_simps)
  have "(1 + b) * u64 \<le> (1 + b) * 1" using b u64_small by (intro mult_left_mono) linarith+
  then have XB: "X \<le> 1 + b" by (simp add: X_def)
  define M where "M = (2::real) ^ 1024"
  have o': "M \<le> \<bar>fl b\<bar>" using o by (simp add: M_def)
  have "M \<le> 2 * b + 1" using e1 o' XB b by linarith
  moreover have "(2::real) ^ 54 \<le> M - 1" by (simp add: M_def)
  ultimately have "(2::real) ^ 53 \<le> 1 + b" by simp
  then have "1 / (1 + b) \<le> 1 / 2 ^ 53" using b by (intro divide_left_mono) simp_all
  moreover have "0 \<le> 1 / (1 + b)" using b by simp
  ultimately show ?thesis by (simp add: u64_def)
qed

lemma sigmoid64_pair_nonneg:
  assumes x: "0 \<le> x"
  shows "\<bar>sigmoid64 x + sigmoid64 (- x) - 1\<bar> \<le> 37 * u64"
proof -
  let ?a = "exp (- x)" and ?b = "exp x"
  have a: "0 < ?a" "?a \<le> 1" using x by simp_all
  have b: "1 \<le> ?b" using x by simp
  have ab: "1 / (1 + ?a) + 1 / (1 + ?b) = 1"
  proof (rule recip_sum_one)
    show "?a * ?b = 1" by (simp add: exp_minus field_simps)
  qed simp_all
  from sig_small[OF a] have p: "sigmoid64 x = fl (1 / fl (1 + fl ?a))"
    and pe: "\<bar>fl (1 / fl (1 + fl ?a)) - 1 / (1 + ?a)\<bar> \<le> 27 * u64"
    by (simp_all add: sigmoid64_def Math_exp_def num64_def)
  have qe: "\<bar>sigmoid64 (- x) - 1 / (1 + ?b)\<bar> \<le> 10 * u64"
  proof (cases "\<bar>fl ?b\<bar> < 2 ^ 1024")
    case True
    show ?thesis
    proof (cases "\<bar>fl (1 + fl ?b)\<bar> < 2 ^ 1024")
      case s: True
      with True have "sigmoid64 (- x) = fl (1 / fl (1 + fl ?b))"
        by (simp add: sigmoid64_def Math_exp_def num64_def)
      then show ?thesis using sig_large[OF b] by simp
    next
      case s: False
      with True have "sigmoid64 (- x) = 0"
        by (simp add: sigmoid64_def Math_exp_def num64_def)
      then show ?thesis using sig_overflow_sum[OF b s] u64_pos by simp
    qed
  next
    case False
    then have "sigmoid64 (- x) = 0"
      by (simp add: sigmoid64_def Math_exp_def num64_def)
    then show ?thesis using sig_overflow[OF b False] u64_pos by simp
  qed
  show ?thesis using pe qe ab unfolding p by linarith
qed

lemma sigmoid64_pair: "\<bar>sigmoid64 x + sigmoid64 (- x) - 1\<bar> \<le> 37 * u64"
proof (cases "0 \<le> x")
  case True
  then show ?thesis by (rule sigmoid64_pair_nonneg)
next
  case False
  then have "0 \<le> - x" by simp
  from sigmoid64_pair_nonneg[OF this] show ?thesis by (simp add: add.commute)
qed

lemma sigmoid64_sum:
  "\<bar>fl (sigmoid64 x + sigmoid64 (- x)) - 1\<bar> \<le> 40 * u64"
  "num64 (sigmoid64 x + sigmoid64 (- x)) = Some (fl (sigmoid64 x + sigmoid64 (- x)))"
proof -
  let ?s = "sigmoid64 x + sigmoid64 (- x)"
  have s: "\<bar>?s - 1\<bar> \<le> 37 * u64" by (rule sigmoid64_pair)
  have "\<bar>fl ?s - ?s\<bar> \<le> (\<bar>?s\<bar> + 1) * u64" by (rule fl_u)
  also have "\<dots> \<le> 3 * u64"
  proof (rule mult_right_mono)
    show "\<bar>?s\<bar> + 1 \<le> 3" using s u64_small by linarith
    show "0 \<le> u64" using u64_pos by simp
  qed
  finally have e: "\<bar>fl ?s - ?s\<bar> \<le> 3 * u64" .
  show "\<bar>fl ?s - 1\<bar> \<le> 40 * u64" using s e by linarith
  then have "\<bar>fl ?s\<bar> \<le> 2" using u64_small by linarith
  then have "\<bar>fl ?s\<bar> < 2 ^ 1024" by (rule le_less_trans) simp
  then show "num64 ?s = Some (fl ?s)" by (simp add: num64_def)
qed

subsection \<open>Values at a logit of 5\<close>

lemma fl_eq_pow:
  assumes "- 1022 \<le> e" and "P = 2 powr of_int e" and "P \<le> \<bar>y\<bar>" and "\<bar>y\<bar> < 2 * P"
    and "Q = 2 powr of_int (e - 52)" and "\<bar>y / Q - of_int m\<bar> < 1/2"
  shows "fl y = of_int m * Q"
proof -
  have "(2::real) powr of_int (e + 1) = 2 * 2 powr of_int e"
    by (simp add: powr_add)
  then show ?thesis
    using fl_eq[of e y m] assms by simp
qed

lemma fl_one: "fl 1 = 1"
  using fl_eq_pow[of 0 1 1 "1 / 2 ^ 52" "2 ^ 52"] by (simp add: powr_minus_divide)

lemma fl_two: "fl 2 = 2"
  using fl_eq_pow[of 1 2 2 "1 / 2 ^ 51" "2 ^ 52"] by (simp add: powr_minus_divide)

lemma fl_half: "fl (1 / 2) = 1 / 2"
  using fl_eq_pow[of "- 1" "1 / 2" "1 / 2" "1 / 2 ^ 53" "2 ^ 52"] by (simp add: powr_minus_divide)

lemma sigmoid64_zero: "sigmoid64 0 = 1 / 2"
  by (simp add: sigmoid64_def Math_exp_def num64_def fl_one fl_two fl_half)

lemma exp_5_4_le_4: "exp (5/4 :: real) \<le> 4"
proof -
  have 1: "exp (5/4 :: real) = exp 1 * exp (1/4)" by (simp add: exp_add[symmetric])
  have 2: "exp (1::real) \<le> 3" by (rule exp_le)
  have 3: "exp (1/4 :: real) \<le> 1 + 1/4 + (1/4)\<^sup>2" by (rule exp_bound) simp_all
  have "exp (1::real) * exp (1/4) \<le> 3 * (1 + 1/4 + (1/4)\<^sup>2)"
    by (rule mult_mono[OF 2 3]) simp_all
  then show ?thesis unfolding 1 by (simp add: power2_eq_square)
qed

lemma taylor_5_4:
  "(\<Sum>m<24. (5/4 :: real) ^ m / fact m)
     = 10159265588913755787467731105733081 / 2910678323800455149637441039630336"
  by (simp add: numeral_eq_Suc fact_numeral)


lemma exp_5_4_bounds:
  "34903429574618413761301868 / 10 ^ 25 < exp (5/4 :: real)"
  "exp (5/4 :: real) < 34903429574618413761315522 / 10 ^ 25"
proof -
  from Maclaurin_exp_le[of "5/4" 24] obtain t :: real where
    t: "\<bar>t\<bar> \<le> \<bar>5/4\<bar>"
    and e: "exp (5/4) = (\<Sum>m<24. (5/4) ^ m / fact m) + exp t / fact 24 * (5/4) ^ 24"
    by blast
  have "t \<le> 5/4" using t by simp
  then have "exp t \<le> exp (5/4)" by simp
  then have t4: "exp t \<le> 4" using exp_5_4_le_4 by linarith
  have t0: "0 < exp t" by simp
  define r :: real where "r = (5/4) ^ 24 / fact 24"
  have rv: "r = 59604644775390625 / (281474976710656 * 620448401733239439360000)"
    by (simp add: r_def fact_numeral power_divide)
  have rp: "0 < r" by (simp add: rv)
  have e': "exp (5/4) = 10159265588913755787467731105733081 / 2910678323800455149637441039630336
      + exp t * r"
    unfolding e taylor_5_4 r_def by simp
  have lo: "0 < exp t * r" using t0 rp by simp
  have hi: "exp t * r \<le> 4 * r" using t4 rp by simp
  show "34903429574618413761301868 / 10 ^ 25 < exp (5/4 :: real)"
    unfolding e' using lo by simp
  show "exp (5/4 :: real) < 34903429574618413761315522 / 10 ^ 25"
    unfolding e' using hi unfolding rv by simp
qed

lemma exp_m5_4_bounds:
  "2865047968601901003248027 / 10 ^ 25 < exp (- (5/4) :: real)"
  "exp (- (5/4) :: real) < 2865047968601901003249151 / 10 ^ 25"
proof -
  let ?e = "exp (5/4 :: real)"
  have p: "0 < ?e" by simp
  have i: "exp (- (5/4) :: real) = 1 / ?e" by (simp add: exp_minus inverse_eq_divide)
  have "2865047968601901003248027 / 10 ^ 25 * ?e
      < 2865047968601901003248027 / 10 ^ 25 * (34903429574618413761315522 / 10 ^ 25)"
    using exp_5_4_bounds(2) by (intro mult_strict_left_mono) simp_all
  also have "\<dots> < 1" by simp
  finally show "2865047968601901003248027 / 10 ^ 25 < exp (- (5/4) :: real)"
    unfolding i by (simp only: pos_less_divide_eq[OF p])
  have "1 < 2865047968601901003249151 / 10 ^ 25 * (34903429574618413761301868 / 10 ^ 25 :: real)"
    by simp
  also have "\<dots> < 2865047968601901003249151 / 10 ^ 25 * ?e"
    using exp_5_4_bounds(1) by (intro mult_strict_left_mono) simp_all
  finally show "exp (- (5/4) :: real) < 2865047968601901003249151 / 10 ^ 25"
    unfolding i by (simp only: pos_divide_less_eq[OF p])
qed

lemma fl_nonneg: "0 \<le> y \<Longrightarrow> 0 \<le> fl y"
proof -
  assume y: "0 \<le> y"
  have "0 \<le> rne r" if "0 \<le> r" for r
  proof -
    have "0 \<le> \<lfloor>r\<rfloor>" using that by simp
    then show ?thesis unfolding rne_def Let_def by auto
  qed
  then have "0 \<le> rne (y / 2 powr of_int (expo y - 52))" using y by simp
  then show ?thesis by (simp add: fl_def)
qed

lemma fl_values:
  "fl 20 = 20" "fl 8 = 8" "fl (5/2) = 5/2" "fl 5 = 5" "fl 10 = 10" "fl (5/4) = 5/4"
proof -
  show "fl 20 = 20"
    using fl_eq_pow[of 4 16 20 "1 / 2 ^ 48" "5 * 2 ^ 50"] by (simp add: powr_minus_divide)
  show "fl 8 = 8"
    using fl_eq_pow[of 3 8 8 "1 / 2 ^ 49" "2 ^ 52"] by (simp add: powr_minus_divide)
  show "fl (5/2) = 5/2"
    using fl_eq_pow[of 1 2 "5/2" "1 / 2 ^ 51" "5 * 2 ^ 50"] by (simp add: powr_minus_divide)
  show "fl 5 = 5"
    using fl_eq_pow[of 2 4 5 "1 / 2 ^ 50" "5 * 2 ^ 50"] by (simp add: powr_minus_divide)
  show "fl 10 = 10"
    using fl_eq_pow[of 3 8 10 "1 / 2 ^ 49" "5 * 2 ^ 50"] by (simp add: powr_minus_divide)
  show "fl (5/4) = 5/4"
    using fl_eq_pow[of 0 1 "5/4" "1 / 2 ^ 52" "5 * 2 ^ 50"] by (simp add: powr_minus_divide)
qed

lemma Math_exp_m5_4: "Math_exp (- (5/4)) = Some (5161211585517647 / 2 ^ 54)"
proof -
  let ?y = "exp (- (5/4) :: real)"
  note b = exp_m5_4_bounds
  have p: "0 < ?y" by simp
  have "fl ?y = of_int 5161211585517647 * (1 / 2 ^ 54)"
  proof (rule fl_eq_pow[of "- 2" "1/4"])
    show "(1/4 :: real) = 2 powr of_int (- 2)" by (simp add: powr_minus_divide)
    show "(1 / 2 ^ 54 :: real) = 2 powr of_int (- 2 - 52)" by (simp add: powr_minus_divide)
    show "1/4 \<le> \<bar>?y\<bar>" using b(1) by simp
    show "\<bar>?y\<bar> < 2 * (1/4)" using b(2) by simp
    show "\<bar>?y / (1 / 2 ^ 54) - of_int 5161211585517647\<bar> < 1/2" using b by simp
  qed simp
  then show ?thesis by (simp add: Math_exp_def num64_def)
qed

lemma Math_exp_5_4: "Math_exp (5/4) = Some (7859553621310192 / 2 ^ 51)"
proof -
  let ?y = "exp (5/4 :: real)"
  note b = exp_5_4_bounds
  have "fl ?y = of_int 7859553621310192 * (1 / 2 ^ 51)"
  proof (rule fl_eq_pow[of 1 2])
    show "(2 :: real) = 2 powr of_int 1" by simp
    show "(1 / 2 ^ 51 :: real) = 2 powr of_int (1 - 52)" by (simp add: powr_minus_divide)
    show "2 \<le> \<bar>?y\<bar>" using b(1) by simp
    show "\<bar>?y\<bar> < 2 * 2" using b(2) by simp
    show "\<bar>?y / (1 / 2 ^ 51) - of_int 7859553621310192\<bar> < 1/2" using b by simp
  qed simp
  then show ?thesis by (simp add: Math_exp_def num64_def)
qed

lemma sigmoid64_5_4: "sigmoid64 (5/4) = 7001294730282954 / 2 ^ 53"
proof -
  have 1: "fl (1 + 5161211585517647 / 2 ^ 54) = 5793902523749908 / 2 ^ 52"
    using fl_eq_pow[of 0 1 "1 + 5161211585517647 / 2 ^ 54" "1 / 2 ^ 52" 5793902523749908]
    by (simp add: powr_minus_divide)
  have 2: "fl (1 / (5793902523749908 / 2 ^ 52)) = 7001294730282954 / 2 ^ 53"
    using fl_eq_pow[of "- 1" "1/2" "1 / (5793902523749908 / 2 ^ 52)" "1 / 2 ^ 53" 7001294730282954]
    by (simp add: powr_minus_divide)
  have n: "num64 (1 + 5161211585517647 / 2 ^ 54) = Some (5793902523749908 / 2 ^ 52)"
    unfolding num64_def 1 by simp
  show ?thesis
    unfolding sigmoid64_def Math_exp_m5_4 option.case n 2 ..
qed

lemma sigmoid64_m5_4: "sigmoid64 (- (5/4)) = 8023618097832149 / 2 ^ 55"
proof -
  have 1: "fl (1 + 7859553621310192 / 2 ^ 51) = 5055676717497720 / 2 ^ 50"
    using fl_eq_pow[of 2 4 "1 + 7859553621310192 / 2 ^ 51" "1 / 2 ^ 50" 5055676717497720]
    by (simp add: powr_minus_divide)
  have 2: "fl (1 / (5055676717497720 / 2 ^ 50)) = 8023618097832149 / 2 ^ 55"
    using fl_eq_pow[of "- 3" "1/8" "1 / (5055676717497720 / 2 ^ 50)" "1 / 2 ^ 55" 8023618097832149]
    by (simp add: powr_minus_divide)
  have n: "num64 (1 + 7859553621310192 / 2 ^ 51) = Some (5055676717497720 / 2 ^ 50)"
    unfolding num64_def 1 by simp
  have "sigmoid64 (- (5/4)) =
      (case Math_exp (5/4) of
         None \<Rightarrow> 0
       | Some e \<Rightarrow> (case num64 (1 + e) of None \<Rightarrow> 0 | Some s \<Rightarrow> fl (1 / s)))"
    by (simp add: sigmoid64_def)
  also have "\<dots> = 8023618097832149 / 2 ^ 55"
    unfolding Math_exp_5_4 option.case n 2 ..
  finally show ?thesis .
qed

lemma sum_5_4:
  "num64 (7001294730282954 / 2 ^ 53 + 8023618097832149 / 2 ^ 55) = Some (1 - 1 / 2 ^ 53)"
proof -
  have "fl (7001294730282954 / 2 ^ 53 + 8023618097832149 / 2 ^ 55) = 9007199254740991 / 2 ^ 53"
    using fl_eq_pow[of "- 1" "1/2" "7001294730282954 / 2 ^ 53 + 8023618097832149 / 2 ^ 55"
        "1 / 2 ^ 53" 9007199254740991]
    by (simp add: powr_minus_divide)
  then show ?thesis by (simp add: num64_def)
qed

subsection \<open>The sum of the two probabilities\<close>

lemma num64_values [simp]:
  "num64 20 = Some 20" "num64 (5/2) = Some (5/2)" "num64 5 = Some 5" "num64 10 = Some 10"
  "num64 (5/4) = Some (5/4)" "num64 (1/2) = Some (1/2)"
  by (simp_all add: num64_def fl_values fl_half)

lemma computeMomentumScore64_even:
  assumes "last10Wins m = 5" and "last10Losses m = 5" and "winStreak m = 0"
  shows "computeMomentumScore64 m = Some 0"
proof -
  have "0 \<le> fl 0.15" by (rule fl_nonneg) simp
  then have "min 0 (fl 0.15) = 0" by simp
  then show ?thesis using assms by (simp add: computeMomentumScore64_def)
qed

lemma weighted64_zero [simp]: "weighted64 kw 0 = Some 0"
  by (simp add: weighted64_def)

lemma logitStep64_same:
  assumes "getMetricValue64 t1 (fst kw) = Some v" and "getMetricValue64 t2 (fst kw) = Some v"
    and "num64 l = Some l"
  shows "logitStep64 t1 t2 kw (Some l) = Some l"
  using assms by (simp add: logitStep64_alt)

lemma getMetricValue64_same:
  "metrics t1 = metrics t2 \<Longrightarrow> getMetricValue64 t1 k = getMetricValue64 t2 k"
  by (simp add: getMetricValue64_def getMetricValue_def)

lemma logitStep64_identical:
  assumes "metrics t1 = metrics t2"
  shows "logitStep64 t1 t2 kw (Some 0) = Some 0 \<or> logitStep64 t1 t2 kw (Some 0) = None"
proof (cases "getMetricValue64 t2 (fst kw)")
  case None
  then show ?thesis
    using getMetricValue64_same[OF assms, of "fst kw"] by (simp add: logitStep64_alt)
next
  case (Some v)
  then have "logitStep64 t1 t2 kw (Some 0) = Some 0"
    using getMetricValue64_same[OF assms, of "fst kw"] by (intro logitStep64_same) simp_all
  then show ?thesis ..
qed

lemma logitStep64_None [simp]: "logitStep64 t1 t2 kw None = None"
  by (simp add: logitStep64_def)

lemma fold_logitStep64_None [simp]: "fold (logitStep64 t1 t2) ws None = None"
  by (induction ws) simp_all

lemma fold_logit64_identical:
  assumes "metrics t1 = metrics t2"
  shows "fold (logitStep64 t1 t2) ws (Some 0) = Some 0 \<or> fold (logitStep64 t1 t2) ws (Some 0) = None"
proof (induction ws)
  case Nil
  then show ?case by simp
next
  case (Cons kw ws)
  from logitStep64_identical[OF assms, of kw] show ?case
  proof
    assume "logitStep64 t1 t2 kw (Some 0) = Some 0"
    then show ?thesis using Cons.IH by simp
  next
    assume "logitStep64 t1 t2 kw (Some 0) = None"
    then show ?thesis by simp
  qed
qed

lemma base64_identical:
  assumes "metrics t1 = metrics t2" and "computeBaseWinProbability64 t1 t2 ws = Some p"
  shows "p = 1 / 2"
proof -
  from fold_logit64_identical[OF assms(1), of ws] assms(2)
  have "fold (logitStep64 t1 t2) ws (Some 0) = Some 0"
    by (auto simp: computeBaseWinProbability64_def)
  with assms(2) show ?thesis
    by (simp add: computeBaseWinProbability64_def sigmoid64_zero)
qed

lemma base64_parts:
  assumes "computeBaseWinProbability64 t1 t2 ws = Some p"
  obtains l x where "fold (logitStep64 t1 t2) ws (Some 0) = Some l" and "num64 (l * 0.25) = Some x"
    and "p = sigmoid64 x"
  using assms unfolding computeBaseWinProbability64_def
  by (auto simp: bind_eq_Some_conv)

text \<open>
  Claim C6, as amended. In binary64 arithmetic, whenever the computation of the probability
  of \<open>A\<close> against \<open>B\<close> stays within the finite numbers, so does that of \<open>B\<close> against \<open>A\<close>
  (its logit is the negated logit), the sum of the two probabilities as JavaScript adds them
  is 1 within \<open>10^-9\<close>, and two teams with the same metrics get exactly 0.5 in both orders.
  The sum is not always exactly 1 (see \<open>base_probability_sum_not_exact\<close>).
\<close>

theorem base_probability_sum_within_tolerance:
  assumes "computeBaseWinProbability64 A B W = Some p"
  shows "\<exists>q s. computeBaseWinProbability64 B A W = Some q
             \<and> num64 (p + q) = Some s \<and> \<bar>s - 1\<bar> \<le> 1 / 10 ^ 9
             \<and> (metrics A = metrics B \<longrightarrow> p = 1 / 2 \<and> q = 1 / 2)"
proof -
  from assms obtain l x where l: "fold (logitStep64 A B) W (Some 0) = Some l"
    and x: "num64 (l * 0.25) = Some x" and p: "p = sigmoid64 x"
    by (rule base64_parts)
  let ?q = "sigmoid64 (- x)"
  have q: "computeBaseWinProbability64 B A W = Some ?q" by (rule base64_swap(2)[OF l x])
  have s: "num64 (p + ?q) = Some (fl (p + ?q))" unfolding p by (rule sigmoid64_sum(2))
  have "\<bar>fl (p + ?q) - 1\<bar> \<le> 40 * u64" unfolding p by (rule sigmoid64_sum(1))
  then have t: "\<bar>fl (p + ?q) - 1\<bar> \<le> 1 / 10 ^ 9" using u64_tiny by linarith
  have i: "p = 1 / 2 \<and> ?q = 1 / 2" if "metrics A = metrics B"
    using base64_identical[OF that assms] base64_identical[OF that[symmetric] q] by simp
  show ?thesis using q s t i by blast
qed

lemma logit64_elite:
  "fold (logitStep64 eliteTeam averageTeam) DEFAULT_WEIGHTS (Some 0) = Some 5"
proof -
  have n: "num64 (- 20) = Some (- 20)" "num64 (- (5/2)) = Some (- (5/2))"
    by (simp_all add: num64_neg)
  show ?thesis
    by (simp add: DEFAULT_WEIGHTS_def logitStep64_alt getMetricValue64_def getMetricValue_def n
        computeMomentumScore64_even weighted64_def NORMALIZATION_def LOWER_IS_BETTER_def eliteTeam_def averageTeam_def
        makeTeam_def defaultMetrics_def fl_values)
qed

lemma base64_elite:
  "computeBaseWinProbability64 eliteTeam averageTeam DEFAULT_WEIGHTS
     = Some (7001294730282954 / 2 ^ 53)"
  "computeBaseWinProbability64 averageTeam eliteTeam DEFAULT_WEIGHTS
     = Some (8023618097832149 / 2 ^ 55)"
proof -
  have x: "num64 (5 * 0.25) = Some (5/4)" by simp
  from base64_swap[OF logit64_elite x]
  show "computeBaseWinProbability64 eliteTeam averageTeam DEFAULT_WEIGHTS
     = Some (7001294730282954 / 2 ^ 53)"
   and "computeBaseWinProbability64 averageTeam eliteTeam DEFAULT_WEIGHTS
     = Some (8023618097832149 / 2 ^ 55)"
    by (simp_all add: sigmoid64_5_4 sigmoid64_m5_4)
qed

text \<open>The claim as stated, a sum of exactly 1, fails: with the default weights, for a team
  with offensive efficiency 120 and defensive efficiency 80 against a team with 100 and 100,
  the logit is 5, the two probabilities are 0.7772998611746911 and 0.22270013882530884, and
  their sum is \<open>1 - 2^-53\<close> (0.9999999999999999), as a double and as a real number.\<close>

theorem base_probability_sum_not_exact:
  "\<exists>p q. computeBaseWinProbability64 eliteTeam averageTeam DEFAULT_WEIGHTS = Some p
       \<and> computeBaseWinProbability64 averageTeam eliteTeam DEFAULT_WEIGHTS = Some q
       \<and> num64 (p + q) = Some (1 - 1 / 2 ^ 53)
       \<and> num64 (p + q) \<noteq> Some 1 \<and> p + q \<noteq> 1"
proof -
  have "num64 (7001294730282954 / 2 ^ 53 + 8023618097832149 / 2 ^ 55) \<noteq> Some 1"
    unfolding sum_5_4 by simp
  moreover have "(7001294730282954 / 2 ^ 53 + 8023618097832149 / 2 ^ 55 :: real) \<noteq> 1"
    by simp
  ultimately show ?thesis
    using base64_elite sum_5_4 by blast
qed

lemma logit64_twins:
  "fold (logitStep64 averageTeam averageTwin) DEFAULT_WEIGHTS (Some 0) = Some 0"
  by (simp add: DEFAULT_WEIGHTS_def logitStep64_alt getMetricValue64_def getMetricValue_def
      computeMomentumScore64_even averageTeam_def averageTwin_def makeTeam_def defaultMetrics_def)

lemma base64_twins:
  "computeBaseWinProbability64 averageTeam averageTwin DEFAULT_WEIGHTS = Some (1 / 2)"
  by (simp add: computeBaseWinProbability64_def logit64_twins sigmoid64_zero)

theorem base_probability_sum_within_tolerance_witness:
  "(computeBaseWinProbability64 eliteTeam averageTeam DEFAULT_WEIGHTS
      = Some (7001294730282954 / 2 ^ 53)
    \<and> (\<exists>q s. computeBaseWinProbability64 averageTeam eliteTeam DEFAULT_WEIGHTS = Some q
            \<and> num64 (7001294730282954 / 2 ^ 53 + q) = Some s \<and> \<bar>s - 1\<bar> \<le> 1 / 10 ^ 9))
   \<and> (computeBaseWinProbability64 averageTeam averageTwin DEFAULT_WEIGHTS = Some (1 / 2)
      \<and> metrics averageTeam = metrics averageTwin
      \<and> (\<exists>q s. computeBaseWinProbability64 averageTwin averageTeam DEFAULT_WEIGHTS = Some q
            \<and> num64 (1 / 2 + q) = Some s \<and> \<bar>s - 1\<bar> \<le> 1 / 10 ^ 9 \<and> q = 1 / 2))"
proof -
  have m: "metrics averageTeam = metrics averageTwin"
    by (simp add: averageTeam_def averageTwin_def makeTeam_def)
  from base_probability_sum_within_tolerance[OF base64_elite(1)]
  have 1: "\<exists>q s. computeBaseWinProbability64 averageTeam eliteTeam DEFAULT_WEIGHTS = Some q
            \<and> num64 (7001294730282954 / 2 ^ 53 + q) = Some s \<and> \<bar>s - 1\<bar> \<le> 1 / 10 ^ 9"
    by blast
  from base_probability_sum_within_tolerance[OF base64_twins] m
  have 2: "\<exists>q s. computeBaseWinProbability64 averageTwin averageTeam DEFAULT_WEIGHTS = Some q
            \<and> num64 (1 / 2 + q) = Some s \<and> \<bar>s - 1\<bar> \<le> 1 / 10 ^ 9 \<and> q = 1 / 2"
    by blast
  show ?thesis using base64_elite(1) base64_twins m 1 2 by blast
qed

section \<open>Advancing winners into the next slot\<close>

lemma firstIndex_distinct:
  "distinct (map f xs) \<Longrightarrow> i < length xs \<Longrightarrow> firstIndex (\<lambda>s. f s = f (xs ! i)) xs = Some i"
proof (induction xs arbitrary: i)
  case Nil
  then show ?case by simp
next
  case (Cons x xs)
  show ?case
  proof (cases i)
    case 0
    then show ?thesis by simp
  next
    case (Suc k)
    with Cons.prems have "f x \<noteq> f (xs ! k)" by (auto simp: image_iff)
    with Cons Suc show ?thesis by simp
  qed
qed

lemma lastIndex_distinct:
  "distinct (map f xs) \<Longrightarrow> i < length xs \<Longrightarrow> lastIndex (\<lambda>s. f s = f (xs ! i)) xs = Some i"
proof (induction xs arbitrary: i)
  case Nil
  then show ?case by simp
next
  case (Cons x xs)
  show ?case
  proof (cases i)
    case 0
    with Cons.prems have "\<forall>y \<in> set xs. f y \<noteq> f x" by (auto simp: image_iff)
    then have "lastIndex (\<lambda>s. f s = f x) xs = None"
      by (induction xs) (auto split: option.splits)
    with 0 show ?thesis by simp
  next
    case (Suc k)
    with Cons show ?thesis by simp
  qed
qed

lemma slots_get_distinct:
  "distinct (map slotId st) \<Longrightarrow> i < length st \<Longrightarrow> slots_get st (slotId (st ! i)) = Some i"
  by (simp add: slots_get_def lastIndex_distinct)

lemma map_update_same: "f y = f (xs ! i) \<Longrightarrow> map f (xs[i := y]) = map f xs"
  by (induction xs arbitrary: i) (auto split: nat.splits)

lemma map_slotId_update:
  "slotId s = slotId (st ! i) \<Longrightarrow> map slotId (st[i := s]) = map slotId st"
  by (rule map_update_same)

lemma advanceInto_slotId: "slotId (advanceInto s w) = slotId s"
  by (simp add: advanceInto_def)

text \<open>What \<open>setWinner\<close> does on a state with distinct slot ids, for the slot at index \<open>a\<close>
  whose next slot is the slot at index \<open>t\<close>.\<close>

lemma setWinner_feeder:
  assumes d: "distinct (map slotId st)" and a: "a < length st" and t: "t < length st"
    and n: "nextSlotId (st ! a) = Some (slotId (st ! t))" and ne: "slotId (st ! t) \<noteq> []"
  shows "setWinner st (slotId (st ! a)) w =
           Inr ((st[a := (st ! a)\<lparr>winnerId := Some w\<rparr>])
                  [t := advanceInto ((st[a := (st ! a)\<lparr>winnerId := Some w\<rparr>]) ! t) w])"
proof -
  let ?st1 = "st[a := (st ! a)\<lparr>winnerId := Some w\<rparr>]"
  have m: "map slotId ?st1 = map slotId st" using a by (simp add: map_slotId_update)
  have idt: "slotId (?st1 ! t) = slotId (st ! t)"
    using a t by (cases "t = a") simp_all
  have g1: "slots_get st (slotId (st ! a)) = Some a" using d a by (rule slots_get_distinct)
  have "slots_get ?st1 (slotId (?st1 ! t)) = Some t"
    using d t m by (intro slots_get_distinct) simp_all
  then have g2: "slots_get ?st1 (slotId (st ! t)) = Some t" by (simp add: idt)
  show ?thesis using a n ne g1 g2 by (simp add: setWinner_def Let_def)
qed

lemma lockResult_feeder:
  assumes d: "distinct (map slotId (slots (baseBracket bl)))"
    and a: "a < length (slots (baseBracket bl))" and t: "t < length (slots (baseBracket bl))"
    and n: "nextSlotId (slots (baseBracket bl) ! a) = Some (slotId (slots (baseBracket bl) ! t))"
    and ne: "slotId (slots (baseBracket bl) ! t) \<noteq> []"
  shows "slots (baseBracket (lockResult bl (slotId (slots (baseBracket bl) ! a)) w)) =
           (let st = slots (baseBracket bl);
                st1 = st[a := (st ! a)\<lparr>winnerId := Some w, liveGame := None\<rparr>]
            in st1[t := advanceInto (st1 ! t) w])"
proof -
  let ?st = "slots (baseBracket bl)"
  let ?st1 = "?st[a := (?st ! a)\<lparr>winnerId := Some w, liveGame := None\<rparr>]"
  have m: "map slotId ?st1 = map slotId ?st" using a by (simp add: map_slotId_update)
  have idt: "slotId (?st1 ! t) = slotId (?st ! t)"
    using a t by (cases "t = a") simp_all
  have g1: "firstIndex (\<lambda>s. slotId s = slotId (?st ! a)) ?st = Some a"
    using d a by (rule firstIndex_distinct)
  have "firstIndex (\<lambda>s. slotId s = slotId (?st1 ! t)) ?st1 = Some t"
    using d t m by (intro firstIndex_distinct) simp_all
  then have g2: "firstIndex (\<lambda>s. slotId s = slotId (?st ! t)) ?st1 = Some t" by (simp add: idt)
  show ?thesis using a n ne g1 g2 by (simp add: lockResult_def Let_def)
qed

text \<open>
  What the code does. Let two slots feed the slot \<open>T\<close> (their \<open>nextSlotId\<close> is the id
  of \<open>T\<close>), in a bracket with distinct slot ids, and let \<open>team1Id\<close> of \<open>T\<close> be free. When
  their winners are advanced one after the other, by \<open>BracketSimState.setWinner\<close> or by
  \<open>LiveStateBlender.lockResult\<close>, the winner advanced first ends up in \<open>team1Id\<close> of \<open>T\<close>
  and the winner advanced second in \<open>team2Id\<close>: the place is decided by the order in
  which the two games are resolved, not by the feeders' positions in the bracket.
\<close>

theorem winners_fill_in_resolution_order:
  assumes d: "distinct (map slotId st)"
    and a: "a < length st" and b: "b < length st" and t: "t < length st"
    and at: "a \<noteq> t" and bt: "b \<noteq> t"
    and na: "nextSlotId (st ! a) = Some (slotId (st ! t))"
    and nb: "nextSlotId (st ! b) = Some (slotId (st ! t))"
    and ne: "slotId (st ! t) \<noteq> []"
    and free: "\<not> truthy (team1Id (st ! t))"
    and w1: "w1 \<noteq> []"
  shows "(\<exists>st1 st2. setWinner st (slotId (st ! a)) w1 = Inr st1
            \<and> setWinner st1 (slotId (st ! b)) w2 = Inr st2
            \<and> team1Id (st2 ! t) = Some w1 \<and> team2Id (st2 ! t) = Some w2)
       \<and> (slots (baseBracket bl) = st \<longrightarrow>
            (let st2 = slots (baseBracket
                         (lockResult (lockResult bl (slotId (st ! a)) w1) (slotId (st ! b)) w2))
             in team1Id (st2 ! t) = Some w1 \<and> team2Id (st2 ! t) = Some w2))"
proof (intro conjI impI)
  let ?s1 = "(st[a := (st ! a)\<lparr>winnerId := Some w1\<rparr>])
                  [t := advanceInto ((st[a := (st ! a)\<lparr>winnerId := Some w1\<rparr>]) ! t) w1]"
  have e1: "setWinner st (slotId (st ! a)) w1 = Inr ?s1"
    using d a t na ne by (rule setWinner_feeder)
  have ids: "map slotId ?s1 = map slotId st"
    by (simp add: map_update_same advanceInto_slotId)
  have len: "length ?s1 = length st" by simp
  have s1b: "nextSlotId (?s1 ! b) = Some (slotId (?s1 ! t))"
    using a b t at bt nb by (cases "b = a") (simp_all add: advanceInto_slotId)
  have s1t: "?s1 ! t = (st ! t)\<lparr>team1Id := Some w1\<rparr>"
    using a t at free by (simp add: advanceInto_def)
  have idb: "slotId (?s1 ! b) = slotId (st ! b)"
    using a b t bt by (cases "b = a") simp_all
  let ?s2 = "(?s1[b := (?s1 ! b)\<lparr>winnerId := Some w2\<rparr>])
                  [t := advanceInto ((?s1[b := (?s1 ! b)\<lparr>winnerId := Some w2\<rparr>]) ! t) w2]"
  have "setWinner ?s1 (slotId (?s1 ! b)) w2 = Inr ?s2"
    using d a b t at s1b ne ids len
    by (intro setWinner_feeder) (simp_all add: advanceInto_slotId)
  then have e2: "setWinner ?s1 (slotId (st ! b)) w2 = Inr ?s2" by (simp only: idb)
  have tr: "truthy (team1Id ((st ! t)\<lparr>team1Id := Some w1\<rparr>))" using w1 by (simp add: truthy_def)
  have r: "team1Id (?s2 ! t) = Some w1 \<and> team2Id (?s2 ! t) = Some w2"
    using a b t at bt s1t tr by (simp add: advanceInto_def)
  show "\<exists>st1 st2. setWinner st (slotId (st ! a)) w1 = Inr st1
            \<and> setWinner st1 (slotId (st ! b)) w2 = Inr st2
            \<and> team1Id (st2 ! t) = Some w1 \<and> team2Id (st2 ! t) = Some w2"
    using e1 e2 r by blast
next
  assume bl: "slots (baseBracket bl) = st"
  let ?b1 = "lockResult bl (slotId (st ! a)) w1"
  let ?s0 = "st[a := (st ! a)\<lparr>winnerId := Some w1, liveGame := None\<rparr>]"
  let ?s1 = "?s0[t := advanceInto (?s0 ! t) w1]"
  have e1: "slots (baseBracket ?b1) = ?s1"
    using lockResult_feeder[of bl a t w1] d a t na ne bl by (simp add: Let_def)
  have ids: "map slotId ?s1 = map slotId st"
    by (simp add: map_update_same advanceInto_slotId)
  have s1b: "nextSlotId (?s1 ! b) = Some (slotId (?s1 ! t))"
    using a b t at bt nb by (cases "b = a") (simp_all add: advanceInto_slotId)
  have s1t: "?s1 ! t = (st ! t)\<lparr>team1Id := Some w1\<rparr>"
    using a t at free by (simp add: advanceInto_def)
  have idb: "slotId (?s1 ! b) = slotId (st ! b)"
    using a b t bt by (cases "b = a") simp_all
  let ?t0 = "?s1[b := (?s1 ! b)\<lparr>winnerId := Some w2, liveGame := None\<rparr>]"
  let ?s2 = "?t0[t := advanceInto (?t0 ! t) w2]"
  have "slots (baseBracket (lockResult ?b1 (slotId (slots (baseBracket ?b1) ! b)) w2)) = ?s2"
    using lockResult_feeder[of ?b1 b t w2] d a b t at s1b ne ids
    by (simp add: e1 Let_def advanceInto_slotId)
  then have e2: "slots (baseBracket (lockResult ?b1 (slotId (st ! b)) w2)) = ?s2"
    by (simp add: e1 idb)
  have tr: "truthy (team1Id ((st ! t)\<lparr>team1Id := Some w1\<rparr>))" using w1 by (simp add: truthy_def)
  have r: "team1Id (?s2 ! t) = Some w1 \<and> team2Id (?s2 ! t) = Some w2"
    using a b t at bt s1t tr by (simp add: advanceInto_def)
  show "let st2 = slots (baseBracket
                         (lockResult (lockResult bl (slotId (st ! a)) w1) (slotId (st ! b)) w2))
             in team1Id (st2 ! t) = Some w1 \<and> team2Id (st2 ! t) = Some w2"
    using e2 r by (simp add: Let_def)
qed

theorem winners_fill_in_resolution_order_witness:
  "distinct (map slotId miniSlots)
   \<and> (0::nat) < length miniSlots \<and> (1::nat) < length miniSlots \<and> (2::nat) < length miniSlots
   \<and> (0::nat) \<noteq> 2 \<and> (1::nat) \<noteq> 2
   \<and> nextSlotId (miniSlots ! 0) = Some (slotId (miniSlots ! 2))
   \<and> nextSlotId (miniSlots ! 1) = Some (slotId (miniSlots ! 2))
   \<and> slotId (miniSlots ! 2) \<noteq> []
   \<and> \<not> truthy (team1Id (miniSlots ! 2))
   \<and> ''east-1'' \<noteq> []
   \<and> slots (baseBracket miniBlender) = miniSlots
   \<and> (\<exists>st1 st2. setWinner miniSlots (slotId (miniSlots ! 0)) ''east-1'' = Inr st1
            \<and> setWinner st1 (slotId (miniSlots ! 1)) ''east-9'' = Inr st2
            \<and> team1Id (st2 ! 2) = Some ''east-1'' \<and> team2Id (st2 ! 2) = Some ''east-9'')
   \<and> (let st2 = slots (baseBracket
                    (lockResult (lockResult miniBlender (slotId (miniSlots ! 0)) ''east-1'')
                       (slotId (miniSlots ! 1)) ''east-9''))
      in team1Id (st2 ! 2) = Some ''east-1'' \<and> team2Id (st2 ! 2) = Some ''east-9'')"
proof -
  have h1: "distinct (map slotId miniSlots)"
    by (simp add: miniSlots_def firstSlot_def emptySlot_def)
  have h2: "(0::nat) < length miniSlots" and h3: "(1::nat) < length miniSlots"
    and h4: "(2::nat) < length miniSlots"
    by (simp_all add: miniSlots_def)
  have h5: "(0::nat) \<noteq> 2" and h6: "(1::nat) \<noteq> 2" by simp_all
  have h7: "nextSlotId (miniSlots ! 0) = Some (slotId (miniSlots ! 2))"
    and h8: "nextSlotId (miniSlots ! 1) = Some (slotId (miniSlots ! 2))"
    and h9: "slotId (miniSlots ! 2) \<noteq> []"
    and h10: "\<not> truthy (team1Id (miniSlots ! 2))"
    by (simp_all add: miniSlots_def firstSlot_def emptySlot_def truthy_def)
  have h11: "''east-1'' \<noteq> []" by simp
  have h12: "slots (baseBracket miniBlender) = miniSlots"
    by (simp add: miniBlender_def miniBracket_def)
  note c = winners_fill_in_resolution_order
    [OF h1 h2 h3 h4 h5 h6 h7 h8 h9 h10 h11, of "''east-9''" miniBlender]
  show ?thesis
    by (intro conjI h1 h2 h3 h4 h5 h6 h7 h8 h9 h10 h11 h12 c [THEN conjunct1]
        c [THEN conjunct2, THEN mp, OF h12])
qed

text \<open>
  Claim C5 (feeder-order slot filling) does not hold of the code. When the second
  round-of-64 game of the region is resolved before the first, its winner is in \<open>team1Id\<close>
  of the round-of-32 slot and the winner of the first game in \<open>team2Id\<close>, with
  \<open>setWinner\<close> and with \<open>lockResult\<close> alike. The dashboard of the repository
  (\<open>propagateBracket\<close> in web/public/app.js) sorts the feeders so that the lower game number
  comes first and fills \<open>team1Id\<close> by that position, whatever the order of the results.
\<close>

theorem higher_feeder_resolved_first_fills_team1:
  "(case setWinner miniSlots ''east-r1-g2'' ''east-9'' of
      Inl e \<Rightarrow> False
    | Inr st1 \<Rightarrow>
        (case setWinner st1 ''east-r1-g1'' ''east-1'' of
           Inl e \<Rightarrow> False
         | Inr st2 \<Rightarrow> team1Id (st2 ! 2) = Some ''east-9'' \<and> team2Id (st2 ! 2) = Some ''east-1''))
   \<and> (let st2 = slots (baseBracket
                    (lockResult (lockResult miniBlender ''east-r1-g2'' ''east-9'')
                       ''east-r1-g1'' ''east-1''))
      in team1Id (st2 ! 2) = Some ''east-9'' \<and> team2Id (st2 ! 2) = Some ''east-1'')"
  by (simp add: setWinner_def lockResult_def slots_get_def miniBlender_def miniBracket_def
      miniSlots_def firstSlot_def emptySlot_def advanceInto_def truthy_def Let_def)

section \<open>The random number generator never gets stuck\<close>

text \<open>\<open>gaussianRandom\<close> draws until the value is not 0. The generator returns 0 only when the
  second word of its state is 0, its state is never all zero, and so at most three draws in a
  row are 0: both loops end.\<close>

lemma mul5_zero: "(x::32 word) * 5 = 0 \<Longrightarrow> x = 0"
proof -
  assume a: "x * 5 = 0"
  have i: "(5::32 word) * 3435973837 = 1" by simp
  have "x = x * (5 * 3435973837)" by (simp only: i mult_1_right)
  also have "\<dots> = (x * 5) * 3435973837" by (simp only: mult.assoc)
  finally show ?thesis using a by simp
qed

lemma mul9_zero: "(x::32 word) * 9 = 0 \<Longrightarrow> x = 0"
proof -
  assume a: "x * 9 = 0"
  have i: "(9::32 word) * 954437177 = 1" by simp
  have "x = x * (9 * 954437177)" by (simp only: i mult_1_right)
  also have "\<dots> = (x * 9) * 954437177" by (simp only: mult.assoc)
  finally show ?thesis using a by simp
qed

lemma rotl_zero:
  assumes "push_bit k (x::32 word) OR drop_bit (32 - k) x = 0" and "k \<le> 32"
  shows "x = 0"
proof (rule bit_eqI)
  fix n
  assume "possible_bit TYPE(32 word) n"
  then have n32: "n < 32" by simp
  from assms have p: "push_bit k x = 0" and d: "drop_bit (32 - k) x = 0"
    by (simp_all add: or_eq_0_iff)
  show "bit x n = bit (0::32 word) n"
  proof (cases "n < 32 - k")
    case True
    then have "n + k < 32" by simp
    then have "bit (push_bit k x) (n + k) = bit x n"
      by (simp add: bit_push_bit_iff)
    then show ?thesis using p by simp
  next
    case False
    then have "32 - k + (n - (32 - k)) = n" using assms(2) by simp
    then have "bit (drop_bit (32 - k) x) (n - (32 - k)) = bit x n"
      by (simp add: bit_drop_bit_eq)
    then show ?thesis using d by simp
  qed
qed

lemma shift9_fix: "(x::32 word) = push_bit 9 x \<Longrightarrow> x = 0"
proof -
  assume a: "x = push_bit 9 x"
  have "x = push_bit 9 (push_bit 9 (push_bit 9 (push_bit 9 x)))"
    by (rule trans[OF a], rule arg_cong[where f = "push_bit 9"],
        rule trans[OF a], rule arg_cong[where f = "push_bit 9"],
        rule trans[OF a], rule arg_cong[where f = "push_bit 9"], rule a)
  also have "\<dots> = push_bit 36 x" by (simp only: push_bit_push_bit) simp
  also have "\<dots> = 0" by (rule push_bit_word_beyond) simp
  finally show ?thesis .
qed

lemma rng_out_zero:
  "fst (rng_next (s0, s1, s2, s3)) = 0 \<Longrightarrow> s1 = 0"
proof -
  assume a: "fst (rng_next (s0, s1, s2, s3)) = 0"
  let ?r = "s1 * 5"
  have "(push_bit 7 ?r OR drop_bit 25 ?r) * 9 = 0"
    using a by (simp add: rng_next_def Let_def unsigned_eq_0_iff)
  then have "push_bit 7 ?r OR drop_bit (32 - 7) ?r = 0" using mul9_zero by simp
  then have "?r = 0" by (rule rotl_zero) simp
  then show ?thesis by (rule mul5_zero)
qed

lemma rng_step:
  "snd (rng_next (s0, s1, s2, s3)) =
     (s0 XOR (s3 XOR s1), s1 XOR (s2 XOR s0), (s2 XOR s0) XOR push_bit 9 s1,
      push_bit 11 (s3 XOR s1) OR drop_bit 21 (s3 XOR s1))"
  by (simp add: rng_next_def Let_def)

lemma xor_zero_eq: "(a::32 word) XOR b = 0 \<Longrightarrow> a = b"
proof -
  assume z: "a XOR b = 0"
  have "a = (a XOR b) XOR b" by (simp add: xor.assoc)
  then show ?thesis using z by simp
qed

lemma nz_step: "nz st \<Longrightarrow> nz (snd (rng_next st))"
proof (rule ccontr)
  assume n: "nz st" and c: "\<not> nz (snd (rng_next st))"
  obtain s0 s1 s2 s3 where st: "st = (s0, s1, s2, s3)" by (cases st) auto
  from c have z1: "s0 XOR (s3 XOR s1) = 0" and z2: "s1 XOR (s2 XOR s0) = 0"
    and z3: "(s2 XOR s0) XOR push_bit 9 s1 = 0"
    and z4: "push_bit 11 (s3 XOR s1) OR drop_bit (32 - 11) (s3 XOR s1) = 0"
    by (simp_all add: nz_def st rng_step)
  from z4 have z5: "s3 XOR s1 = 0" by (rule rotl_zero) simp
  then have e31: "s3 = s1" by (rule xor_zero_eq)
  from z1 z5 have s0: "s0 = 0" by simp
  from z2 s0 have "s1 XOR s2 = 0" by simp
  then have e12: "s1 = s2" by (rule xor_zero_eq)
  from z3 s0 e12 have "s1 XOR push_bit 9 s1 = 0" by simp
  then have "s1 = push_bit 9 s1" by (rule xor_zero_eq)
  then have "s1 = 0" by (rule shift9_fix)
  with e31 e12 s0 n st show False by (simp add: nz_def)
qed

lemma four_draws:
  assumes n: "nz st"
    and o0: "fst (rng_next st) = 0"
    and o1: "fst (rng_next (snd (rng_next st))) = 0"
    and o2: "fst (rng_next (snd (rng_next (snd (rng_next st))))) = 0"
    and o3: "fst (rng_next (snd (rng_next (snd (rng_next (snd (rng_next st))))))) = 0"
  shows False
proof -
  obtain s0 s1 s2 s3 where st: "st = (s0, s1, s2, s3)" by (cases st) auto
  have s1: "s1 = 0" using o0 unfolding st by (rule rng_out_zero)
  have st1: "snd (rng_next st) = (s0 XOR s3, s2 XOR s0, s2 XOR s0, push_bit 11 s3 OR drop_bit 21 s3)"
    by (simp add: st rng_step s1)
  have "s2 XOR s0 = 0" using o1 unfolding st1 by (rule rng_out_zero)
  then have s2: "s2 = s0" by (rule xor_zero_eq)
  let ?R = "push_bit 11 s3 OR drop_bit 21 s3"
  have st2: "snd (rng_next (snd (rng_next st))) =
      ((s0 XOR s3) XOR ?R, s0 XOR s3, s0 XOR s3, push_bit 11 ?R OR drop_bit 21 ?R)"
    by (simp add: st1 rng_step s2)
  have "s0 XOR s3 = 0" using o2 unfolding st2 by (rule rng_out_zero)
  then have s0: "s0 = s3" by (rule xor_zero_eq)
  have st3: "snd (rng_next (snd (rng_next (snd (rng_next st))))) =
      (?R XOR (push_bit 11 ?R OR drop_bit 21 ?R), ?R, ?R,
       push_bit 11 (push_bit 11 ?R OR drop_bit 21 ?R) OR drop_bit 21 (push_bit 11 ?R OR drop_bit 21 ?R))"
    by (simp add: st2 rng_step s0)
  have "?R = 0" using o3 unfolding st3 by (rule rng_out_zero)
  then have "push_bit 11 s3 OR drop_bit (32 - 11) s3 = 0" by simp
  then have "s3 = 0" by (rule rotl_zero) simp
  with s0 s1 s2 n st show False by (simp add: nz_def)
qed

lemma drawNonZero_total:
  assumes n: "nz st"
  shows "\<exists>u st'. drawNonZero st = Some (u, st') \<and> nz st'"
proof -
  let ?a = "snd (rng_next st)"
  let ?b = "snd (rng_next ?a)"
  let ?c = "snd (rng_next ?b)"
  let ?d = "snd (rng_next ?c)"
  have na: "nz ?a" using n by (rule nz_step)
  have nb: "nz ?b" using na by (rule nz_step)
  have nc: "nz ?c" using nb by (rule nz_step)
  have nd: "nz ?d" using nc by (rule nz_step)
  have unf: "\<And>s. drawNonZero s =
      (if fst (rng_next s) = 0 then drawNonZero (snd (rng_next s))
       else Some (fst (rng_next s), snd (rng_next s)))"
    by (subst drawNonZero.simps) (simp add: split_beta)
  show ?thesis
  proof (cases "fst (rng_next st) = 0")
    case False
    then have "drawNonZero st = Some (fst (rng_next st), ?a)" by (subst unf) simp
    then show ?thesis using na by blast
  next
    case o0: True
    show ?thesis
    proof (cases "fst (rng_next ?a) = 0")
      case False
      then have "drawNonZero st = Some (fst (rng_next ?a), ?b)"
        using o0 by (subst unf, simp, subst unf) simp
      then show ?thesis using nb by blast
    next
      case o1: True
      show ?thesis
      proof (cases "fst (rng_next ?b) = 0")
        case False
        then have "drawNonZero st = Some (fst (rng_next ?b), ?c)"
          using o0 o1 by (subst unf, simp, subst unf, simp, subst unf) simp
        then show ?thesis using nc by blast
      next
        case o2: True
        have "fst (rng_next ?c) \<noteq> 0" using four_draws[OF n o0 o1 o2] by blast
        then have "drawNonZero st = Some (fst (rng_next ?c), ?d)"
          using o0 o1 o2 by (subst unf, simp, subst unf, simp, subst unf, simp, subst unf) simp
        then show ?thesis using nd by blast
      qed
    qed
  qed
qed

lemma nz_createRng: "nz (createRng seed0)"
proof -
  have "(1013904223::32 word) \<noteq> 0" by simp
  then show ?thesis
    by (auto simp: nz_def createRng_def Let_def)
qed

lemma gaussianRandom_total:
  assumes "nz st"
  shows "\<exists>g st'. gaussianRandom st = Some (g, st') \<and> nz st'"
proof -
  from drawNonZero_total[OF assms] obtain u st1 where 1: "drawNonZero st = Some (u, st1)" "nz st1"
    by blast
  from drawNonZero_total[OF 1(2)] obtain v st2 where 2: "drawNonZero st1 = Some (v, st2)" "nz st2"
    by blast
  show ?thesis using 1 2 by (simp add: gaussianRandom_def)
qed

lemma sampleOutcome_total:
  assumes "nz st"
  shows "\<exists>b st'. sampleOutcome p vc r st = Some (b, st') \<and> nz st'"
proof -
  from gaussianRandom_total[OF assms] obtain g st1 where 1: "gaussianRandom st = Some (g, st1)" "nz st1"
    by blast
  have "nz (snd (rng_next st1))" using 1(2) by (rule nz_step)
  then show ?thesis using 1 by (simp add: sampleOutcome_def Let_def split_beta)
qed

section \<open>One game of a run\<close>

lemma lastIndex_map: "lastIndex (\<lambda>s. f s = n) xs = lastIndex (\<lambda>x. x = n) (map f xs)"
  by (induction xs) (simp_all split: option.splits)

lemma slots_get_ids: "map slotId st' = map slotId st \<Longrightarrow> slots_get st' n = slots_get st n"
  by (simp add: slots_get_def lastIndex_map[of slotId])

lemma lastIndex_SomeD: "lastIndex P xs = Some j \<Longrightarrow> j < length xs \<and> P (xs ! j)"
  by (induction xs arbitrary: j) (auto split: option.splits if_splits)

lemma lastIndex_exists: "i < length xs \<Longrightarrow> P (xs ! i) \<Longrightarrow> \<exists>j. lastIndex P xs = Some j"
proof (induction xs arbitrary: i)
  case Nil
  then show ?case by simp
next
  case (Cons x xs)
  show ?case
  proof (cases i)
    case 0
    with Cons.prems show ?thesis by (simp split: option.splits)
  next
    case (Suc k)
    with Cons.prems have "k < length xs" "P (xs ! k)" by simp_all
    from Cons.IH[OF this] show ?thesis by auto
  qed
qed

lemma slots_get_SomeD: "slots_get st n = Some j \<Longrightarrow> j < length st \<and> slotId (st ! j) = n"
  unfolding slots_get_def by (drule lastIndex_SomeD) simp

lemma setWinner_total:
  assumes "i < length st"
  shows "\<exists>st'. setWinner st (slotId (st ! i)) w = Inr st' \<and> length st' = length st"
proof -
  from lastIndex_exists[of i st "\<lambda>s. slotId s = slotId (st ! i)"] assms
  obtain j where "slots_get st (slotId (st ! i)) = Some j" by (auto simp: slots_get_def)
  then show ?thesis
    by (auto simp: setWinner_def Let_def split: option.splits)
qed

lemma setWinner_applyWin:
  assumes d: "distinct (map slotId st)" and i: "i < length st"
  shows "setWinner st (slotId (st ! i)) w = Inr (applyWin st i w)"
proof -
  let ?st1 = "st[i := (st ! i)\<lparr>winnerId := Some w\<rparr>]"
  have m: "map slotId ?st1 = map slotId st" by (simp add: map_update_same)
  have g: "\<And>n. slots_get ?st1 n = slots_get st n" using m by (rule slots_get_ids)
  have n: "nextSlotId (?st1 ! i) = nextSlotId (st ! i)" using i by simp
  show ?thesis
    using slots_get_distinct[OF d i]
    by (simp add: setWinner_def applyWin_def target_def Let_def g n split: option.splits)
qed

lemma teamMap_get_id: "teamMap_get teams k = Some t \<Longrightarrow> id_t t = k"
  unfolding teamMap_get_def by (drule map_of_SomeD) auto

lemma playGame_skip:
  "\<not> playable teams (rs_slots rs ! i) \<Longrightarrow> playGame env teams tt md r i rs = Some (Inr rs)"
  by (auto simp: playGame_def playable_def idOf_def Let_def split: option.splits)

lemma playGame_play:
  assumes p: "playable teams (rs_slots rs ! i)" and n: "nz (rs_rng rs)"
    and sw: "setWinner (rs_slots rs) (slotId (rs_slots rs ! i)) (idOf (team1Id (rs_slots rs ! i))) = Inr sa"
            "setWinner (rs_slots rs) (slotId (rs_slots rs ! i)) (idOf (team2Id (rs_slots rs ! i))) = Inr sb"
  shows "\<exists>rs' b winner loser.
           playGame env teams tt md r i rs = Some (Inr rs')
         \<and> rs_slots rs' = (if b then sa else sb)
         \<and> nz (rs_rng rs')
         \<and> rs_roundCounts rs' =
             incCount (incCount (rs_roundCounts rs) (idOf (team1Id (rs_slots rs ! i))) r)
               (idOf (team2Id (rs_slots rs ! i))) r
         \<and> rs_modeState rs' =
             (case (onGameComplete md, rs_modeState rs) of
                (Some f, Some s) \<Rightarrow> Some (f winner loser r s)
              | _ \<Rightarrow> rs_modeState rs)"
proof -
  let ?g = "rs_slots rs ! i"
  from p obtain t1 t2 where t: "teamMap_get teams (idOf (team1Id ?g)) = Some t1"
      "teamMap_get teams (idOf (team2Id ?g)) = Some t2"
    and tr: "truthy (team1Id ?g)" "truthy (team2Id ?g)"
    by (auto simp: playable_def)
  have ids: "id_t t1 = idOf (team1Id ?g)" "id_t t2 = idOf (team2Id ?g)"
    using t by (simp_all add: teamMap_get_id)
  let ?ctx = "\<lparr> round_c = r, region_c = region_s ?g, tournamentType_c = tt,
                   gamesPlayedByTeam1 = (case rs_gamesPlayed rs (id_t t1) of None \<Rightarrow> 0 | Some n \<Rightarrow> n),
                   gamesPlayedByTeam2 = (case rs_gamesPlayed rs (id_t t2) of None \<Rightarrow> 0 | Some n \<Rightarrow> n) \<rparr>"
  from sampleOutcome_total[OF n, of "gameProbability env md ?g t1 t2 ?ctx" "getVarianceConfig md" r]
  obtain b g where s: "sampleOutcome (gameProbability env md ?g t1 t2 ?ctx) (getVarianceConfig md) r (rs_rng rs)
      = Some (b, g)" and ng: "nz g" by blast
  have t': "teamMap_get teams (case team1Id ?g of None \<Rightarrow> [] | Some a \<Rightarrow> a) = Some t1"
      "teamMap_get teams (case team2Id ?g of None \<Rightarrow> [] | Some a \<Rightarrow> a) = Some t2"
    using t by (simp_all add: idOf_def)
  let ?w = "if b then t1 else t2"
  let ?l = "if b then t2 else t1"
  let ?rs' = "\<lparr> rs_slots = (if b then sa else sb), rs_rng = g,
      rs_gamesPlayed = bumpGames (bumpGames (rs_gamesPlayed rs) (id_t ?w)) (id_t ?l),
      rs_modeState = (case (onGameComplete md, rs_modeState rs) of
                        (Some f, Some s) \<Rightarrow> Some (f ?w ?l r s)
                      | _ \<Rightarrow> rs_modeState rs),
      rs_roundCounts = incCount (incCount (rs_roundCounts rs) (id_t t1) r) (id_t t2) r \<rparr>"
  have pg: "playGame env teams tt md r i rs = Some (Inr ?rs')"
    using tr t' s sw ids by (cases b) (simp_all add: playGame_def Let_def)
  show ?thesis
    by (rule exI[of _ ?rs'], rule exI[of _ b], rule exI[of _ ?w], rule exI[of _ ?l])
       (simp add: pg ng ids)
qed

section \<open>Simulation: termination and determinism\<close>

lemma andThen_simps [simp]:
  "andThen (Some (Inr x)) f = f x"
  "andThen None f = None"
  "andThen (Some (Inl e)) f = Some (Inl e)"
  by (simp_all add: andThen_def)

lemma playGames_rule:
  assumes step: "\<And>i G rs. I (i # G) rs \<Longrightarrow>
                   \<exists>rs'. playGame env teams tt md r i rs = Some (Inr rs') \<and> I G rs'"
  shows "I G rs \<Longrightarrow> \<exists>rs'. playGames env teams tt md r G rs = Some (Inr rs') \<and> I [] rs'"
proof (induction G arbitrary: rs)
  case Nil
  then show ?case by simp
next
  case (Cons i G)
  from step[OF Cons.prems] obtain rs1 where
    1: "playGame env teams tt md r i rs = Some (Inr rs1)" "I G rs1" by blast
  from Cons.IH[OF 1(2)] show ?case using 1(1) by simp
qed

lemma playRounds_rule:
  assumes step: "\<And>k rs. k < length rounds \<Longrightarrow> J k rs \<Longrightarrow>
                   \<exists>rs'. playGames env teams tt md (rounds ! k)
                            (getReadyGamesForRound (rs_slots rs) (rounds ! k)) rs = Some (Inr rs')
                         \<and> J (Suc k) rs'"
  shows "J 0 rs \<Longrightarrow>
         \<exists>rs'. playRounds env teams tt md rounds rs = Some (Inr rs') \<and> J (length rounds) rs'"
  using step
proof (induction rounds arbitrary: J rs)
  case Nil
  then show ?case by simp
next
  case (Cons r rounds)
  from Cons.prems(2)[of 0 rs] Cons.prems(1) obtain rs1 where
    1: "playGames env teams tt md r (getReadyGamesForRound (rs_slots rs) r) rs = Some (Inr rs1)"
       "J (Suc 0) rs1" by auto
  have "\<exists>rs'. playRounds env teams tt md rounds rs1 = Some (Inr rs')
           \<and> (\<lambda>k. J (Suc k)) (length rounds) rs'"
  proof (rule Cons.IH)
    show "J (Suc 0) rs1" by (rule 1(2))
  next
    fix k rs'
    assume "k < length rounds" "J (Suc k) rs'"
    then show "\<exists>rs''. playGames env teams tt md (rounds ! k)
                   (getReadyGamesForRound (rs_slots rs') (rounds ! k)) rs' = Some (Inr rs'')
                 \<and> J (Suc (Suc k)) rs''"
      using Cons.prems(2)[of "Suc k" rs'] by simp
  qed
  then show ?case using 1(1) by simp
qed

lemma simLoop_rule:
  assumes step: "\<And>m sim acc. K m acc \<Longrightarrow>
                   \<exists>acc'. oneSim env b teams md (runSeed env baseSeed sim) acc = Some (Inr acc')
                          \<and> K (Suc m) acc'"
  shows "K m acc \<Longrightarrow>
         \<exists>acc'. simLoop env b teams md baseSeed n sim acc = Some (Inr acc') \<and> K (m + n) acc'"
proof (induction n arbitrary: m sim acc)
  case 0
  then show ?case by simp
next
  case (Suc n)
  from step[OF Suc.prems, of sim] obtain acc1 where
    1: "oneSim env b teams md (runSeed env baseSeed sim) acc = Some (Inr acc1)" "K (Suc m) acc1"
    by blast
  from Suc.IH[OF 1(2), of "Suc sim"] show ?case using 1(1) by simp
qed

lemma ready_lt: "i \<in> set (getReadyGamesForRound st r) \<Longrightarrow> i < length st"
  by (simp add: getReadyGamesForRound_def)

text \<open>Every call returns.\<close>

lemma playGame_returns:
  assumes n: "nz (rs_rng rs)" and i: "i < length (rs_slots rs)"
  shows "\<exists>rs'. playGame env teams tt md r i rs = Some (Inr rs')
           \<and> nz (rs_rng rs') \<and> length (rs_slots rs') = length (rs_slots rs)"
proof (cases "playable teams (rs_slots rs ! i)")
  case False
  then show ?thesis using n by (simp add: playGame_skip)
next
  case True
  from setWinner_total[OF i] obtain sa sb where
    sa: "setWinner (rs_slots rs) (slotId (rs_slots rs ! i)) (idOf (team1Id (rs_slots rs ! i))) = Inr sa"
      "length sa = length (rs_slots rs)"
    and sb: "setWinner (rs_slots rs) (slotId (rs_slots rs ! i)) (idOf (team2Id (rs_slots rs ! i))) = Inr sb"
      "length sb = length (rs_slots rs)"
    by metis
  from playGame_play[OF True n sa(1) sb(1), of env tt md r]
  show ?thesis using sa(2) sb(2) by auto
qed

lemma playRounds_returns:
  assumes "nz (rs_rng rs)"
  shows "\<exists>rs'. playRounds env teams tt md rounds rs = Some (Inr rs')"
proof -
  have "\<exists>rs'. playRounds env teams tt md rounds rs = Some (Inr rs')
          \<and> (\<lambda>k rs. nz (rs_rng rs)) (length rounds) rs'"
  proof (rule playRounds_rule)
    show "nz (rs_rng rs)" by (rule assms)
  next
    fix k rs0
    assume n0: "nz (rs_rng (rs0::'a RunState))"
    let ?I = "\<lambda>G rs. nz (rs_rng (rs::'a RunState)) \<and> (\<forall>i \<in> set G. i < length (rs_slots rs))"
    have "\<exists>rs'. playGames env teams tt md (rounds ! k)
              (getReadyGamesForRound (rs_slots rs0) (rounds ! k)) rs0 = Some (Inr rs')
            \<and> ?I [] rs'"
    proof (rule playGames_rule[where I = ?I])
      show "?I (getReadyGamesForRound (rs_slots rs0) (rounds ! k)) rs0"
        using n0 by (auto dest: ready_lt)
    next
      fix i G and rs1 :: "'a RunState"
      assume a: "?I (i # G) rs1"
      then have "nz (rs_rng rs1)" "i < length (rs_slots rs1)" by simp_all
      from playGame_returns[OF this, of env teams tt md "rounds ! k"] a
      show "\<exists>rs'. playGame env teams tt md (rounds ! k) i rs1 = Some (Inr rs') \<and> ?I G rs'"
        by auto
    qed
    then show "\<exists>rs'. playGames env teams tt md (rounds ! k)
              (getReadyGamesForRound (rs_slots rs0) (rounds ! k)) rs0 = Some (Inr rs')
            \<and> nz (rs_rng rs')" by auto
  qed
  then show ?thesis by blast
qed

lemma oneSim_returns: "\<exists>acc'. oneSim env b teams md sd acc = Some (Inr acc')"
proof -
  from playRounds_returns[of "\<lparr> rs_slots = BracketSimState_new b, rs_rng = createRng sd,
            rs_gamesPlayed = Map.empty, rs_modeState = acc_modeState acc,
            rs_roundCounts = acc_roundCounts acc \<rparr>" env teams "tournamentType_b b" md ROUNDS_IN_ORDER]
  show ?thesis by (auto simp: oneSim_def nz_createRng)
qed

lemma simulateFullBracket_returns:
  "\<exists>res. simulateFullBracket env b teams md n baseSeed = Some (Inr res)"
proof -
  have "\<exists>acc'. simLoop env b teams md baseSeed n 0 (initialAcc teams md) = Some (Inr acc')
          \<and> (\<lambda>m acc. True) (0 + n) acc'"
    by (rule simLoop_rule) (simp_all add: oneSim_returns)
  then show ?thesis by (auto simp: simulateFullBracket_def simulateRuns_def)
qed

text \<open>The clock is not read when a base seed is given.\<close>

lemma gamma_now: "LIVE_STATE_GAMMA (env\<lparr>now := c\<rparr>) = LIVE_STATE_GAMMA env"
  by simp

lemma playGame_now: "playGame (env\<lparr>now := c\<rparr>) = playGame env"
  unfolding playGame_def gameProbability_def gamma_now ..

lemma playGames_now:
  "playGames (env\<lparr>now := c\<rparr>) teams tt md r G = playGames env teams tt md r G"
proof (induction G)
  case Nil
  show ?case by (rule ext) simp
next
  case (Cons i G)
  show ?case by (rule ext) (simp add: Cons.IH playGame_now)
qed

lemma playRounds_now:
  "playRounds (env\<lparr>now := c\<rparr>) teams tt md rounds = playRounds env teams tt md rounds"
proof (induction rounds)
  case Nil
  show ?case by (rule ext) simp
next
  case (Cons r rounds)
  show ?case by (rule ext) (simp add: Cons.IH playGames_now)
qed

lemma oneSim_now:
  "oneSim (env\<lparr>now := c\<rparr>) b teams md sd acc = oneSim env b teams md sd acc"
  by (simp add: oneSim_def playRounds_now)

lemma runSeed_now: "runSeed (env\<lparr>now := c\<rparr>) (Some s) sim = runSeed env (Some s) sim"
  by (simp add: runSeed_def)

lemma simLoop_now:
  "simLoop (env\<lparr>now := c\<rparr>) b teams md (Some s) n = simLoop env b teams md (Some s) n"
proof (induction n)
  case 0
  show ?case by (rule ext, rule ext) simp
next
  case (Suc n)
  show ?case by (rule ext, rule ext) (simp add: Suc.IH oneSim_now runSeed_now)
qed

text \<open>
  Claim C1 (determinism). With a base seed the result of \<open>simulateFullBracket\<close> is a function
  of its arguments only: the one ambient input of the function, the clock read by
  \<open>Date.now()\<close>, is not used (whatever the clock returns, the result is the same), the
  call returns a result, and run \<open>i\<close> seeds its generator with \<open>baseSeed + i\<close> (the sum of
  two JavaScript numbers). The callbacks of the mode are functions of their arguments here.
\<close>

theorem simulateFullBracket_deterministic:
  "simulateFullBracket (env\<lparr>now := clock\<rparr>) b teams md n (Some s)
     = simulateFullBracket env b teams md n (Some s)
   \<and> (\<exists>res. simulateFullBracket env b teams md n (Some s) = Some (Inr res))
   \<and> runSeed env (Some s) i = toDouble (s + int i)"
  by (simp add: simulateFullBracket_def simulateRuns_def simLoop_now
      simulateFullBracket_returns[unfolded simulateFullBracket_def simulateRuns_def] runSeed_def)

section \<open>A run on a bracket with locked results\<close>

lemma late_slots: "slots lateBracket = lateSlots"
  by (simp add: lateBracket_def lateSlots_def lockResult_def miniBlender_def miniBracket_def
      miniSlots_def firstSlot_def emptySlot_def advanceInto_def truthy_def Let_def)

lemma late_tt: "tournamentType_b lateBracket = mens"
  by (simp add: lateBracket_def lockResult_def miniBlender_def miniBracket_def
      miniSlots_def firstSlot_def emptySlot_def advanceInto_def truthy_def Let_def)

lemma late_ready:
  "getReadyGamesForRound lateSlots r = (if r = round_of_32 then [2] else [])"
  by (cases r)
     (simp_all add: getReadyGamesForRound_def lateSlots_def firstSlot_def emptySlot_def
        isReady_def truthy_def upt_rec nth_Cons')

lemma late_played_ready:
  "getReadyGamesForRound (lateSlots[2 := (lateSlots ! 2)\<lparr>winnerId := Some w\<rparr>]) r
     = (if w = [] \<and> r = round_of_32 then [2] else [])"
  by (cases r)
     (simp_all add: getReadyGamesForRound_def lateSlots_def firstSlot_def emptySlot_def
        isReady_def truthy_def upt_rec nth_Cons')

lemma late_setWinner:
  "setWinner lateSlots (slotId (lateSlots ! 2)) w
     = Inr (lateSlots[2 := (lateSlots ! 2)\<lparr>winnerId := Some w\<rparr>])"
  by (simp add: setWinner_def slots_get_def lateSlots_def firstSlot_def emptySlot_def)

lemma late_playable: "playable miniTeams (lateSlots ! 2)"
  by (simp add: playable_def lateSlots_def firstSlot_def emptySlot_def truthy_def idOf_def
      teamMap_get_def miniTeams_def makeTeam_def)

lemma late_ids:
  "idOf (team1Id (lateSlots ! 2)) = ''east-1''" "idOf (team2Id (lateSlots ! 2)) = ''east-8''"
  by (simp_all add: lateSlots_def emptySlot_def idOf_def)

lemma oneSim_late:
  "\<exists>acc' winner loser.
      oneSim env lateBracket miniTeams md sd acc = Some (Inr acc')
    \<and> acc_roundCounts acc' =
        incCount (incCount (acc_roundCounts acc) ''east-1'' round_of_32) ''east-8'' round_of_32
    \<and> acc_modeState acc' =
        (case (onGameComplete md, acc_modeState acc) of
           (Some f, Some s) \<Rightarrow> Some (f winner loser round_of_32 s)
         | _ \<Rightarrow> acc_modeState acc)"
proof -
  let ?rs0 = "\<lparr> rs_slots = lateSlots, rs_rng = createRng sd,
            rs_gamesPlayed = Map.empty, rs_modeState = acc_modeState acc,
            rs_roundCounts = acc_roundCounts acc \<rparr>"
  have pl: "playable miniTeams (rs_slots ?rs0 ! 2)" by (simp add: late_playable)
  have n: "nz (rs_rng ?rs0)" by (simp add: nz_createRng)
  have s1: "setWinner (rs_slots ?rs0) (slotId (rs_slots ?rs0 ! 2)) (idOf (team1Id (rs_slots ?rs0 ! 2)))
      = Inr (lateSlots[2 := (lateSlots ! 2)\<lparr>winnerId := Some ''east-1''\<rparr>])"
    by (simp add: late_setWinner late_ids)
  have s2: "setWinner (rs_slots ?rs0) (slotId (rs_slots ?rs0 ! 2)) (idOf (team2Id (rs_slots ?rs0 ! 2)))
      = Inr (lateSlots[2 := (lateSlots ! 2)\<lparr>winnerId := Some ''east-8''\<rparr>])"
    by (simp add: late_setWinner late_ids)
  from playGame_play[OF pl n s1 s2, of env mens md round_of_32]
  obtain rs' b winner loser where
    pg: "playGame env miniTeams mens md round_of_32 2 ?rs0 = Some (Inr rs')"
    and sl: "rs_slots rs' = (if b then lateSlots[2 := (lateSlots ! 2)\<lparr>winnerId := Some ''east-1''\<rparr>]
                             else lateSlots[2 := (lateSlots ! 2)\<lparr>winnerId := Some ''east-8''\<rparr>])"
    and rc0: "rs_roundCounts rs' =
        incCount (incCount (rs_roundCounts ?rs0) (idOf (team1Id (rs_slots ?rs0 ! 2))) round_of_32)
          (idOf (team2Id (rs_slots ?rs0 ! 2))) round_of_32"
    and ms0: "rs_modeState rs' =
        (case (onGameComplete md, rs_modeState ?rs0) of
           (Some f, Some s) \<Rightarrow> Some (f winner loser round_of_32 s)
         | _ \<Rightarrow> rs_modeState ?rs0)"
    by blast
  have rc: "rs_roundCounts rs' =
        incCount (incCount (acc_roundCounts acc) ''east-1'' round_of_32) ''east-8'' round_of_32"
    using rc0 by (simp add: late_ids)
  have ms: "rs_modeState rs' =
        (case (onGameComplete md, acc_modeState acc) of
           (Some f, Some s) \<Rightarrow> Some (f winner loser round_of_32 s)
         | _ \<Rightarrow> acc_modeState acc)"
    using ms0 unfolding RunState.select_convs .
  have rd: "\<And>r. getReadyGamesForRound (rs_slots rs') r = []"
    using sl by (simp add: late_played_ready)
  have "playRounds env miniTeams mens md ROUNDS_IN_ORDER ?rs0 = Some (Inr rs')"
    by (simp add: ROUNDS_IN_ORDER_def late_ready pg rd)
  then have "oneSim env lateBracket miniTeams md sd acc
      = Some (Inr \<lparr> acc_roundCounts = rs_roundCounts rs',
                    acc_championshipCounts = recordChampion (rs_slots rs') (acc_championshipCounts acc),
                    acc_modeState = rs_modeState rs' \<rparr>)"
    by (simp add: oneSim_def late_slots late_tt BracketSimState_new_def)
  then show ?thesis using rc ms by auto
qed

section \<open>Round-reach counts\<close>

lemma skel_length: "skel st = skel st0 \<Longrightarrow> length st = length st0"
  unfolding skel_def by (drule arg_cong[where f = length]) simp

lemma skel_nth:
  assumes "skel st = skel st0" "i < length st"
  shows "slotId (st ! i) = slotId (st0 ! i)" "round_s (st ! i) = round_s (st0 ! i)"
        "nextSlotId (st ! i) = nextSlotId (st0 ! i)"
proof -
  have l: "i < length st0" using assms skel_length by metis
  have "skel st ! i = skel st0 ! i" using assms(1) by simp
  then have "(slotId (st ! i), round_s (st ! i), nextSlotId (st ! i))
      = (slotId (st0 ! i), round_s (st0 ! i), nextSlotId (st0 ! i))"
    using assms(2) l by (simp add: skel_def)
  then show "slotId (st ! i) = slotId (st0 ! i)" "round_s (st ! i) = round_s (st0 ! i)"
        "nextSlotId (st ! i) = nextSlotId (st0 ! i)" by simp_all
qed

lemma skel_ids: "skel st = skel st0 \<Longrightarrow> map slotId st = map slotId st0"
proof -
  assume "skel st = skel st0"
  then have "map fst (skel st) = map fst (skel st0)" by simp
  then show ?thesis by (simp add: skel_def comp_def)
qed

lemma skel_update:
  "slotId s = slotId (st ! i) \<Longrightarrow> round_s s = round_s (st ! i) \<Longrightarrow> nextSlotId s = nextSlotId (st ! i)
   \<Longrightarrow> skel (st[i := s]) = skel st"
  unfolding skel_def by (rule map_update_same) simp

lemma advanceInto_static:
  "slotId (advanceInto s w) = slotId s" "round_s (advanceInto s w) = round_s s"
  "nextSlotId (advanceInto s w) = nextSlotId s" "winnerId (advanceInto s w) = winnerId s"
  by (simp_all add: advanceInto_def)

lemma skel_applyWin: "skel (applyWin st i w) = skel st"
  by (simp add: applyWin_def Let_def skel_update advanceInto_static split: option.splits)

lemma length_applyWin [simp]: "length (applyWin st i w) = length st"
  by (simp add: applyWin_def Let_def split: option.splits)

lemma target_SomeD:
  "target st i = Some j \<Longrightarrow> j < length st \<and> nextSlotId (st ! i) = Some (slotId (st ! j))"
  by (auto simp: target_def split: option.splits if_splits dest: slots_get_SomeD)

lemma feedsNextRound_nth:
  assumes "feedsNextRound st" "i < length st" "j < length st"
    "nextSlotId (st ! i) = Some (slotId (st ! j))"
  shows "ROUND_INDEX (round_s (st ! j)) = ROUND_INDEX (round_s (st ! i)) + 1"
  using assms unfolding feedsNextRound_def by (meson nth_mem)

lemma feedsNextRound_skel:
  assumes "skel st = skel st0" "feedsNextRound st0"
  shows "feedsNextRound st"
  unfolding feedsNextRound_def
proof (intro ballI impI)
  fix s s' assume s: "s \<in> set st" "s' \<in> set st" and n: "nextSlotId s = Some (slotId s')"
  from s obtain i j where ij: "i < length st" "s = st ! i" "j < length st" "s' = st ! j"
    by (metis in_set_conv_nth)
  have l: "i < length st0" "j < length st0" using ij assms(1) skel_length by metis+
  have "nextSlotId (st0 ! i) = Some (slotId (st0 ! j))"
    using n ij skel_nth[OF assms(1)] by simp
  from feedsNextRound_nth[OF assms(2) l this]
  show "ROUND_INDEX (round_s s') = ROUND_INDEX (round_s s) + 1"
    using ij skel_nth[OF assms(1)] by simp
qed

text \<open>The state after a game, slot by slot.\<close>

lemma applyWin_nth:
  assumes f: "feedsNextRound st" and i: "i < length st" and x: "x < length st"
  shows "applyWin st i w ! x =
           (if x = i then (st ! i)\<lparr>winnerId := Some w\<rparr>
            else if target st i = Some x then advanceInto (st ! x) w
            else st ! x)"
proof (cases "target st i")
  case None
  then show ?thesis using i x by (simp add: applyWin_def Let_def)
next
  case (Some j)
  from target_SomeD[OF Some] have j: "j < length st" "nextSlotId (st ! i) = Some (slotId (st ! j))"
    by simp_all
  from feedsNextRound_nth[OF f i j] have "j \<noteq> i" by auto
  then show ?thesis using Some i x j by (auto simp: applyWin_def Let_def)
qed

lemma ent_winner [simp]: "ent t (s\<lparr>winnerId := v\<rparr>) = ent t s"
  by (simp add: ent_def)

lemma ent_advance: "ent t (advanceInto s w) \<le> ent t s + (if t = w then 1 else 0)"
  by (simp add: ent_def advanceInto_def)

lemma sum_list_update_le:
  "j < length xs \<Longrightarrow> f y \<le> f (xs ! j) + (c::nat)
   \<Longrightarrow> sum_list (map f (xs[j := y])) \<le> sum_list (map f xs) + c"
proof (induction xs arbitrary: j)
  case Nil
  then show ?case by simp
next
  case (Cons x xs)
  then show ?case by (cases j) (auto simp: add.commute add.left_commute)
qed

lemma sum_list_filter_le:
  "(\<And>x. x \<in> set xs \<Longrightarrow> P x \<Longrightarrow> f x \<le> (g x :: nat))
   \<Longrightarrow> sum_list (map f (filter P xs)) \<le> sum_list (map g xs)"
proof (induction xs)
  case Nil
  then show ?case by simp
next
  case (Cons x xs)
  then show ?case by (auto intro: add_mono trans_le_add2)
qed

lemma map_nth_fun: "map (\<lambda>i. f (xs ! i)) [0..<length xs] = map f xs"
proof -
  have "map f xs = map f (map ((!) xs) [0..<length xs])" by (simp only: map_nth)
  also have "\<dots> = map (\<lambda>i. f (xs ! i)) [0..<length xs]" by (simp add: comp_def)
  finally show ?thesis by simp
qed

lemma pend_le_occ: "pend st (getReadyGamesForRound st r) t \<le> occ st r t"
proof -
  have "sum_list (map (\<lambda>i. ent t (st ! i))
            (filter (\<lambda>i. round_s (st ! i) = r \<and> isReady (st ! i)) [0..<length st]))
      \<le> sum_list (map (\<lambda>i. if round_s (st ! i) = r then ent t (st ! i) else 0) [0..<length st])"
    by (rule sum_list_filter_le) simp
  then show ?thesis
    by (simp add: pend_def occ_def getReadyGamesForRound_def
        map_nth_fun[of "\<lambda>s. if round_s s = r then ent t s else 0" st])
qed

lemma ROUND_INDEX_nth: "k < 6 \<Longrightarrow> ROUND_INDEX (ROUNDS_IN_ORDER ! k) = int k"
proof -
  assume "k < 6"
  then have "k = 0 \<or> k = 1 \<or> k = 2 \<or> k = 3 \<or> k = 4 \<or> k = 5" by arith
  then show ?thesis by (auto simp: ROUNDS_IN_ORDER_def)
qed

lemma rounds_inj:
  assumes "k < 6" "k' < 6"
  shows "(ROUNDS_IN_ORDER ! k = ROUNDS_IN_ORDER ! k') = (k = k')"
proof
  assume "ROUNDS_IN_ORDER ! k = ROUNDS_IN_ORDER ! k'"
  then have "ROUND_INDEX (ROUNDS_IN_ORDER ! k) = ROUND_INDEX (ROUNDS_IN_ORDER ! k')" by simp
  then have "int k = int k'" using assms by (simp only: ROUND_INDEX_nth)
  then show "k = k'" by simp
next
  assume "k = k'"
  then show "ROUNDS_IN_ORDER ! k = ROUNDS_IN_ORDER ! k'" by simp
qed

lemma occ_applyWin_le:
  "occ (applyWin st i w) r t \<le> occ st r t + (if t = w then 1 else 0)"
proof -
  let ?f = "\<lambda>s. if round_s s = r then ent t s else 0"
  let ?st1 = "st[i := (st ! i)\<lparr>winnerId := Some w\<rparr>]"
  have 1: "sum_list (map ?f ?st1) = sum_list (map ?f st)"
    by (simp add: map_update_same[of ?f])
  show ?thesis
  proof (cases "target st i")
    case None
    then show ?thesis using 1 by (simp add: applyWin_def occ_def)
  next
    case (Some j)
    have j: "j < length ?st1" using target_SomeD[OF Some] by simp
    have "?f (advanceInto (?st1 ! j) w) \<le> ?f (?st1 ! j) + (if t = w then 1 else 0)"
      using ent_advance[of t "?st1 ! j" w] by (simp add: advanceInto_static)
    from sum_list_update_le[of j ?st1 ?f, OF j this]
    show ?thesis using Some 1 by (simp add: applyWin_def occ_def Let_def)
  qed
qed

lemma occ_applyWin_other:
  assumes f: "feedsNextRound st" and i: "i < length st"
    and r: "ROUND_INDEX r \<noteq> ROUND_INDEX (round_s (st ! i)) + 1"
  shows "occ (applyWin st i w) r t = occ st r t"
proof -
  let ?f = "\<lambda>s. if round_s s = r then ent t s else 0"
  let ?st1 = "st[i := (st ! i)\<lparr>winnerId := Some w\<rparr>]"
  have 1: "map ?f ?st1 = map ?f st"
    by (simp add: map_update_same[of ?f])
  show ?thesis
  proof (cases "target st i")
    case None
    then show ?thesis using 1 by (simp add: applyWin_def occ_def)
  next
    case (Some j)
    from target_SomeD[OF Some] have j: "j < length st" "nextSlotId (st ! i) = Some (slotId (st ! j))"
      by simp_all
    from feedsNextRound_nth[OF f i j] r have ne: "round_s (st ! j) \<noteq> r" by auto
    have ji: "j \<noteq> i" using feedsNextRound_nth[OF f i j] by auto
    have "?f (advanceInto (?st1 ! j) w) = ?f (?st1 ! j)"
      using ne ji j by (simp add: advanceInto_static)
    then have "map ?f (?st1[j := advanceInto (?st1 ! j) w]) = map ?f ?st1"
      by (rule map_update_same)
    then show ?thesis using Some 1 by (simp add: applyWin_def occ_def Let_def)
  qed
qed

lemma pend_applyWin:
  assumes f: "feedsNextRound st" and i: "i < length st"
    and G: "\<forall>x \<in> set G. x < length st \<and> x \<noteq> i \<and> round_s (st ! x) = round_s (st ! i)"
  shows "pend (applyWin st i w) G t = pend st G t"
proof -
  have "\<And>x. x \<in> set G \<Longrightarrow> applyWin st i w ! x = st ! x"
  proof -
    fix x assume x: "x \<in> set G"
    then have xl: "x < length st" "x \<noteq> i" "round_s (st ! x) = round_s (st ! i)" using G by auto
    have "target st i \<noteq> Some x"
    proof
      assume "target st i = Some x"
      from target_SomeD[OF this] feedsNextRound_nth[OF f i xl(1)] xl(3) show False by auto
    qed
    then show "applyWin st i w ! x = st ! x"
      using applyWin_nth[OF f i xl(1), of w] xl(2) by simp
  qed
  then show ?thesis by (simp add: pend_def cong: map_cong)
qed

lemma incCount_apply:
  "incCount rc a r t r' = rc t r' + (if t = a \<and> r' = r then 1 else 0)"
  by (simp add: incCount_def)

lemma pe_Cons_le: "pe k G st q t \<le> pe k (i # G) st q t"
  by (simp add: pe_def pend_def)

lemma mono3_skip:
  assumes "mono3 k (i # G) st rc"
  shows "mono3 k G st rc"
  unfolding mono3_def
proof (intro allI impI)
  fix t q assume "q < (5::nat)"
  with assms have "rc t (ROUNDS_IN_ORDER ! Suc q) + pe k (i # G) st (Suc q) t
      \<le> rc t (ROUNDS_IN_ORDER ! q)" by (simp add: mono3_def)
  then show "rc t (ROUNDS_IN_ORDER ! Suc q) + pe k G st (Suc q) t \<le> rc t (ROUNDS_IN_ORDER ! q)"
    using pe_Cons_le[of k G st "Suc q" t i] by linarith
qed

lemma mono3_play:
  assumes f: "feedsNextRound st" and k: "k < 6" and i: "i < length st"
    and ri: "round_s (st ! i) = ROUNDS_IN_ORDER ! k"
    and G: "\<forall>x \<in> set G. x < length st \<and> x \<noteq> i \<and> round_s (st ! x) = ROUNDS_IN_ORDER ! k"
    and m: "mono3 k (i # G) st rc"
    and t1: "team1Id (st ! i) = Some a" "a \<noteq> []"
    and t2: "team2Id (st ! i) = Some b" "b \<noteq> []"
    and w: "w = a \<or> w = b"
  shows "mono3 k G (applyWin st i w)
           (incCount (incCount rc a (ROUNDS_IN_ORDER ! k)) b (ROUNDS_IN_ORDER ! k))"
  unfolding mono3_def
proof (intro allI impI)
  fix t q assume q: "q < (5::nat)"
  let ?R = "\<lambda>n. ROUNDS_IN_ORDER ! n"
  let ?rc' = "incCount (incCount rc a (?R k)) b (?R k)"
  let ?e = "(if t = a then 1 else 0) + (if t = b then 1 else (0::nat))"
  from m q have mq: "rc t (?R (Suc q)) + pe k (i # G) st (Suc q) t \<le> rc t (?R q)"
    by (simp add: mono3_def)
  have rcS: "?rc' t (?R (Suc q)) = rc t (?R (Suc q)) + (if Suc q = k then ?e else 0)"
    using q k by (simp add: incCount_apply rounds_inj)
  have rc0: "?rc' t (?R q) = rc t (?R q) + (if q = k then ?e else 0)"
    using q k by (simp add: incCount_apply rounds_inj)
  have enti: "ent t (st ! i) = ?e" using t1 t2 by (auto simp: ent_def)
  have G': "\<forall>x \<in> set G. x < length st \<and> x \<noteq> i \<and> round_s (st ! x) = round_s (st ! i)"
    using G ri by simp
  consider "Suc q < k" | "Suc q = k" | "q = k" | "k < q" by arith
  then show "?rc' t (?R (Suc q)) + pe k G (applyWin st i w) (Suc q) t \<le> ?rc' t (?R q)"
  proof cases
    case 1
    then show ?thesis using mq rcS rc0 by (simp add: pe_def)
  next
    case 2
    have "pe k G (applyWin st i w) (Suc q) t = pend st G t"
      using 2 pend_applyWin[OF f i G'] by (simp add: pe_def)
    moreover have "pe k (i # G) st (Suc q) t = ?e + pend st G t"
      using 2 enti by (simp add: pe_def pend_def)
    ultimately show ?thesis using mq rcS rc0 2 by simp
  next
    case 3
    have "pe k G (applyWin st i w) (Suc q) t \<le> occ st (?R (Suc q)) t + (if t = w then 1 else 0)"
      using 3 occ_applyWin_le[of st i w "?R (Suc q)" t] by (simp add: pe_def)
    moreover have "pe k (i # G) st (Suc q) t = occ st (?R (Suc q)) t"
      using 3 by (simp add: pe_def)
    moreover have "(if t = w then 1 else 0) \<le> ?e" using w by auto
    ultimately show ?thesis using mq rcS rc0 3 by simp
  next
    case 4
    have "ROUND_INDEX (?R (Suc q)) \<noteq> ROUND_INDEX (round_s (st ! i)) + 1"
      using 4 q k by (simp add: ri ROUND_INDEX_nth)
    from occ_applyWin_other[OF f i this]
    have "pe k G (applyWin st i w) (Suc q) t = pe k (i # G) st (Suc q) t"
      using 4 by (simp add: pe_def)
    then show ?thesis using mq rcS rc0 4 by simp
  qed
qed

lemma btw_mono3_start:
  assumes "btw k st rc"
  shows "mono3 k (getReadyGamesForRound st (ROUNDS_IN_ORDER ! k)) st rc"
  unfolding mono3_def
proof (intro allI impI)
  fix t q assume q: "q < (5::nat)"
  let ?G = "getReadyGamesForRound st (ROUNDS_IN_ORDER ! k)"
  from assms q have b: "rc t (ROUNDS_IN_ORDER ! Suc q)
        + (if Suc q < k then 0 else occ st (ROUNDS_IN_ORDER ! Suc q) t) \<le> rc t (ROUNDS_IN_ORDER ! q)"
    by (simp add: btw_def)
  have "pe k ?G st (Suc q) t \<le> (if Suc q < k then 0 else occ st (ROUNDS_IN_ORDER ! Suc q) t)"
    using pend_le_occ[of st "ROUNDS_IN_ORDER ! k" t] by (simp add: pe_def)
  then show "rc t (ROUNDS_IN_ORDER ! Suc q) + pe k ?G st (Suc q) t \<le> rc t (ROUNDS_IN_ORDER ! q)"
    using b by linarith
qed

lemma mono3_btw_end: "mono3 k [] st rc \<Longrightarrow> btw (Suc k) st rc"
  unfolding mono3_def btw_def pe_def pend_def
  by (auto simp: less_Suc_eq split: if_splits)

lemma truthy_Some: "truthy v \<Longrightarrow> v = Some (idOf v) \<and> idOf v \<noteq> []"
  by (cases v) (simp_all add: truthy_def idOf_def)

lemma c3_round:
  assumes k: "k < 6" and n: "nz (rs_rng rs)" and sk: "skel (rs_slots rs) = skel st0"
    and d: "distinct (map slotId st0)" and f: "feedsNextRound st0"
    and b: "btw k (rs_slots rs) (rs_roundCounts rs)"
  shows "\<exists>rs'. playGames env teams tt md (ROUNDS_IN_ORDER ! k)
                  (getReadyGamesForRound (rs_slots rs) (ROUNDS_IN_ORDER ! k)) rs = Some (Inr rs')
           \<and> nz (rs_rng rs') \<and> skel (rs_slots rs') = skel st0
           \<and> btw (Suc k) (rs_slots rs') (rs_roundCounts rs')"
proof -
  let ?r = "ROUNDS_IN_ORDER ! k"
  let ?I = "\<lambda>G (rs::'a RunState). nz (rs_rng rs) \<and> skel (rs_slots rs) = skel st0 \<and> distinct G
            \<and> (\<forall>x \<in> set G. x < length (rs_slots rs) \<and> round_s (rs_slots rs ! x) = ?r)
            \<and> mono3 k G (rs_slots rs) (rs_roundCounts rs)"
  have "\<exists>rs'. playGames env teams tt md ?r (getReadyGamesForRound (rs_slots rs) ?r) rs = Some (Inr rs')
          \<and> ?I [] rs'"
  proof (rule playGames_rule[where I = ?I])
    show "?I (getReadyGamesForRound (rs_slots rs) ?r) rs"
      using n sk btw_mono3_start[OF b] by (simp add: getReadyGamesForRound_def)
  next
    fix i G and rs1 :: "'a RunState"
    assume I: "?I (i # G) rs1"
    let ?st = "rs_slots rs1"
    from I have n1: "nz (rs_rng rs1)" and sk1: "skel ?st = skel st0"
      and dG: "distinct (i # G)" and il: "i < length ?st" and ir: "round_s (?st ! i) = ?r"
      and Gx: "\<forall>x \<in> set G. x < length ?st \<and> round_s (?st ! x) = ?r"
      and m: "mono3 k (i # G) ?st (rs_roundCounts rs1)" by simp_all
    have d1: "distinct (map slotId ?st)" using d skel_ids[OF sk1] by simp
    have f1: "feedsNextRound ?st" using sk1 f by (rule feedsNextRound_skel)
    show "\<exists>rs'. playGame env teams tt md ?r i rs1 = Some (Inr rs') \<and> ?I G rs'"
    proof (cases "playable teams (?st ! i)")
      case False
      then show ?thesis using I mono3_skip[OF m] by (simp add: playGame_skip)
    next
      case True
      let ?a = "idOf (team1Id (?st ! i))"
      let ?b = "idOf (team2Id (?st ! i))"
      from True have ta: "team1Id (?st ! i) = Some ?a" "?a \<noteq> []"
        and tb: "team2Id (?st ! i) = Some ?b" "?b \<noteq> []"
        using truthy_Some by (auto simp: playable_def)
      from playGame_play[OF True n1 setWinner_applyWin[OF d1 il] setWinner_applyWin[OF d1 il],
          of env tt md ?r]
      obtain rs' bb where pg: "playGame env teams tt md ?r i rs1 = Some (Inr rs')"
        and sl: "rs_slots rs' = (if bb then applyWin ?st i ?a else applyWin ?st i ?b)"
        and n': "nz (rs_rng rs')"
        and rc': "rs_roundCounts rs' = incCount (incCount (rs_roundCounts rs1) ?a ?r) ?b ?r"
        by blast
      let ?w = "if bb then ?a else ?b"
      have sl': "rs_slots rs' = applyWin ?st i ?w" using sl by simp
      have G': "\<forall>x \<in> set G. x < length ?st \<and> x \<noteq> i \<and> round_s (?st ! x) = ?r"
        using Gx dG by auto
      have w: "?w = ?a \<or> ?w = ?b" by simp
      have m': "mono3 k G (rs_slots rs') (rs_roundCounts rs')"
        unfolding sl' rc' by (rule mono3_play[OF f1 k il ir G' m ta tb w])
      have sk': "skel (rs_slots rs') = skel st0" using sk1 by (simp add: sl' skel_applyWin)
      have "\<forall>x \<in> set G. x < length (rs_slots rs') \<and> round_s (rs_slots rs' ! x) = ?r"
      proof
        fix x assume x: "x \<in> set G"
        then have xl: "x < length ?st" "round_s (?st ! x) = ?r" using Gx by auto
        have l': "x < length (rs_slots rs')" using xl(1) by (simp add: sl')
        have "round_s (rs_slots rs' ! x) = round_s (st0 ! x)" using skel_nth(2)[OF sk' l'] .
        also have "\<dots> = round_s (?st ! x)" using skel_nth(2)[OF sk1 xl(1)] by simp
        finally show "x < length (rs_slots rs') \<and> round_s (rs_slots rs' ! x) = ?r"
          using l' xl(2) by simp
      qed
      then show ?thesis using pg n' sk' m' dG by auto
    qed
  qed
  then show ?thesis using mono3_btw_end by blast
qed

lemma occ_zero:
  assumes "laterRoundsEmpty st" "0 < ROUND_INDEX r"
  shows "occ st r t = 0"
proof -
  have "\<And>s. s \<in> set st \<Longrightarrow> (if round_s s = r then ent t s else 0) = 0"
  proof -
    fix s assume "s \<in> set st"
    with assms have "round_s s = r \<Longrightarrow> \<not> truthy (team1Id s) \<and> \<not> truthy (team2Id s)"
      by (auto simp: laterRoundsEmpty_def)
    then show "(if round_s s = r then ent t s else 0) = 0"
      by (auto simp: ent_def truthy_def)
  qed
  then show ?thesis by (simp add: occ_def)
qed

lemma c3_run:
  assumes d: "distinct (map slotId (slots b))" and f: "feedsNextRound (slots b)"
    and e: "laterRoundsEmpty (slots b)" and m: "monotoneCounts (acc_roundCounts acc)"
  shows "\<exists>acc'. oneSim env b teams md sd acc = Some (Inr acc')
           \<and> monotoneCounts (acc_roundCounts acc')"
proof -
  let ?J = "\<lambda>k (rs::'a RunState). nz (rs_rng rs) \<and> skel (rs_slots rs) = skel (slots b)
             \<and> btw k (rs_slots rs) (rs_roundCounts rs)"
  let ?rs0 = "\<lparr> rs_slots = BracketSimState_new b, rs_rng = createRng sd,
            rs_gamesPlayed = Map.empty, rs_modeState = acc_modeState acc,
            rs_roundCounts = acc_roundCounts acc \<rparr>"
  have "\<exists>rs'. playRounds env teams (tournamentType_b b) md ROUNDS_IN_ORDER ?rs0 = Some (Inr rs')
          \<and> ?J (length ROUNDS_IN_ORDER) rs'"
  proof (rule playRounds_rule[where J = ?J])
    have "btw 0 (slots b) (acc_roundCounts acc)"
      unfolding btw_def
    proof (intro allI impI)
      fix t q assume q: "q < (5::nat)"
      have "occ (slots b) (ROUNDS_IN_ORDER ! Suc q) t = 0"
        using q by (intro occ_zero[OF e]) (simp add: ROUND_INDEX_nth)
      then show "acc_roundCounts acc t (ROUNDS_IN_ORDER ! Suc q)
          + (if Suc q < 0 then 0 else occ (slots b) (ROUNDS_IN_ORDER ! Suc q) t)
          \<le> acc_roundCounts acc t (ROUNDS_IN_ORDER ! q)"
        using m q by (simp add: monotoneCounts_def)
    qed
    then show "?J 0 ?rs0" by (simp add: nz_createRng BracketSimState_new_def)
  next
    fix k and rs :: "'a RunState"
    assume k: "k < length ROUNDS_IN_ORDER" and J: "?J k rs"
    then have k6: "k < 6" by (simp add: ROUNDS_IN_ORDER_def)
    from J c3_round[OF k6 _ _ d f, of rs env teams "tournamentType_b b" md]
    show "\<exists>rs'. playGames env teams (tournamentType_b b) md (ROUNDS_IN_ORDER ! k)
              (getReadyGamesForRound (rs_slots rs) (ROUNDS_IN_ORDER ! k)) rs = Some (Inr rs')
            \<and> ?J (Suc k) rs'" by blast
  qed
  moreover have "length ROUNDS_IN_ORDER = 6" by (simp add: ROUNDS_IN_ORDER_def)
  ultimately obtain rs' where r: "playRounds env teams (tournamentType_b b) md ROUNDS_IN_ORDER ?rs0 = Some (Inr rs')"
    and b6: "btw 6 (rs_slots rs') (rs_roundCounts rs')"
    by auto
  have "monotoneCounts (rs_roundCounts rs')"
    using b6 by (simp add: btw_def monotoneCounts_def)
  then show ?thesis using r by (simp add: oneSim_def)
qed

text \<open>
  Brackets in which no result has been recorded. When the slot ids are distinct, every
  \<open>nextSlotId\<close> leads to a slot of the next round and the slots after the round of 64 hold
  no team yet, \<open>simulateFullBracket\<close> returns counts in which no team has a larger count in
  a round than in the round before, for every roster, mode, number of runs and seed.
\<close>

theorem round_reach_monotone:
  assumes "distinct (map slotId (slots b))" and "feedsNextRound (slots b)"
    and "laterRoundsEmpty (slots b)"
  shows "\<exists>res. simulateFullBracket env b teams md n baseSeed = Some (Inr res)
           \<and> (\<forall>t. \<forall>q < 5. roundCounts res t (ROUNDS_IN_ORDER ! Suc q)
                              \<le> roundCounts res t (ROUNDS_IN_ORDER ! q))"
proof -
  let ?K = "\<lambda>(m::nat) (acc::'a SimAcc). monotoneCounts (acc_roundCounts acc)"
  have "\<exists>acc'. simLoop env b teams md baseSeed n 0 (initialAcc teams md) = Some (Inr acc')
          \<and> ?K (0 + n) acc'"
  proof (rule simLoop_rule[where K = ?K])
    show "?K 0 (initialAcc teams md)" by (simp add: initialAcc_def monotoneCounts_def)
  next
    fix m sim and acc :: "'a SimAcc"
    assume "?K m acc"
    from c3_run[OF assms this]
    show "\<exists>acc'. oneSim env b teams md (runSeed env baseSeed sim) acc = Some (Inr acc')
            \<and> ?K (Suc m) acc'" by blast
  qed
  then show ?thesis
    by (auto simp: simulateFullBracket_def simulateRuns_def monotoneCounts_def)
qed

theorem round_reach_monotone_witness:
  "distinct (map slotId (slots miniBracket))
   \<and> feedsNextRound (slots miniBracket)
   \<and> laterRoundsEmpty (slots miniBracket)
   \<and> (\<exists>res. simulateFullBracket exampleEnv miniBracket miniTeams
               (PureStatisticalMode :: unit SimulationMode) 100 (Some 42)
               = Some (Inr res)
           \<and> (\<forall>t. \<forall>q < 5. roundCounts res t (ROUNDS_IN_ORDER ! Suc q)
                              \<le> roundCounts res t (ROUNDS_IN_ORDER ! q)))"
proof -
  have h1: "distinct (map slotId (slots miniBracket))"
    by (simp add: miniBracket_def miniSlots_def firstSlot_def emptySlot_def)
  have h2: "feedsNextRound (slots miniBracket)"
    by (simp add: feedsNextRound_def miniBracket_def miniSlots_def firstSlot_def emptySlot_def)
  have h3: "laterRoundsEmpty (slots miniBracket)"
    by (simp add: laterRoundsEmpty_def miniBracket_def miniSlots_def firstSlot_def emptySlot_def
        truthy_def)
  show ?thesis
    by (intro conjI h1 h2 h3 round_reach_monotone[OF h1 h2 h3])
qed

text \<open>
  Claim C3 (monotone round reach) does not hold of the code. Once the results of the round
  of 64 have been locked into the bracket, a run plays the round-of-32 game only, and east-1,
  which stands in a slot of the round of 64, is counted once in the round of 32 and not at
  all in the round of 64. \<open>roundCounts\<close> is documented as the number of times a team reached
  each round, and the test of the repository expects the counts to decrease along the
  rounds.
\<close>

theorem locked_results_break_monotonicity:
  "(case simulateFullBracket exampleEnv lateBracket miniTeams
          (PureStatisticalMode :: unit SimulationMode) 1 (Some 42) of
      Some (Inr res) \<Rightarrow>
        roundCounts res ''east-1'' round_of_64 = 0 \<and> roundCounts res ''east-1'' round_of_32 = 1
    | _ \<Rightarrow> False)"
proof -
  let ?md = "PureStatisticalMode :: unit SimulationMode"
  from oneSim_late[of exampleEnv ?md "runSeed exampleEnv (Some 42) 0"
      "initialAcc miniTeams ?md"]
  obtain acc' where
    1: "oneSim exampleEnv lateBracket miniTeams ?md (runSeed exampleEnv (Some 42) 0)
          (initialAcc miniTeams ?md) = Some (Inr acc')"
    and 2: "acc_roundCounts acc' =
        incCount (incCount (acc_roundCounts (initialAcc miniTeams ?md))
          ''east-1'' round_of_32) ''east-8'' round_of_32"
    by auto
  have "simulateFullBracket exampleEnv lateBracket miniTeams ?md 1 (Some 42)
      = Some (Inr \<lparr> roundCounts = acc_roundCounts acc',
                    championshipCounts = acc_championshipCounts acc', totalSims = 1 \<rparr>)"
    using 1 by (simp add: simulateFullBracket_def simulateRuns_def)
  then show ?thesis using 2 by (simp add: incCount_apply initialAcc_def)
qed

section \<open>Championship counts\<close>







lemma idOf_Some [simp]: "idOf (Some a) = a"
  by (simp add: idOf_def)













section \<open>The brackets of the builder are complete\<close>





lemma eliteEight_next [simp]:
  "(eliteEight rg nx)\<lparr>nextSlotId := Some n\<rparr> = eliteEight rg (Some n)"
  "slotId (eliteEight rg nx) = regionName rg @ ''-r4-g1''"
  by (simp_all add: eliteEight_def builtSlot_def)



lemma regionName_r4:
  "(regionName rg @ ''-r4-g1'' = regionName rg' @ ''-r4-g1'') = (rg = rg')"
  by (cases rg; cases rg') simp_all


























section \<open>The state of a mode\<close>

text \<open>
  Claim C4 (a fresh mode state for each run) does not hold of the code: \<open>initializeSimState\<close>
  is called once, before the loop over the runs, and the object it returns is handed to
  \<open>onGameComplete\<close> in every run. With a mode that counts the games in its state, starting
  from 0, and a bracket with one game left, the state after two runs is 2; a state created
  afresh for each run would end at 1.
\<close>

theorem mode_state_shared_across_runs:
  "(case simulateRuns exampleEnv lateBracket miniTeams counterMode 2 (Some 42) of
      Some (Inr acc) \<Rightarrow> acc_modeState acc = Some 2
    | _ \<Rightarrow> False)
   \<and> initializeSimState counterMode = Some 0"
proof -
  have og: "onGameComplete counterMode = Some (\<lambda>winner loser r s. Suc s)"
    and ini: "initializeSimState counterMode = Some 0"
    by (simp_all add: counterMode_def)
  let ?a0 = "initialAcc miniTeams counterMode"
  from oneSim_late[of exampleEnv counterMode "runSeed exampleEnv (Some 42) 0" ?a0]
  obtain acc1 where
    1: "oneSim exampleEnv lateBracket miniTeams counterMode (runSeed exampleEnv (Some 42) 0) ?a0
          = Some (Inr acc1)"
    and m1: "acc_modeState acc1 = Some 1"
    by (auto simp: og ini initialAcc_def)
  from oneSim_late[of exampleEnv counterMode "runSeed exampleEnv (Some 42) (Suc 0)" acc1]
  obtain acc2 where
    2: "oneSim exampleEnv lateBracket miniTeams counterMode (runSeed exampleEnv (Some 42) (Suc 0)) acc1
          = Some (Inr acc2)"
    and m2: "acc_modeState acc2 = Some 2"
    by (auto simp: og m1)
  have "simulateRuns exampleEnv lateBracket miniTeams counterMode 2 (Some 42) = Some (Inr acc2)"
    using 1 2 by (simp add: simulateRuns_def numeral_2_eq_2)
  then show ?thesis using m2 ini by simp
qed

end
